theory Spec2Isabelle
  imports Main "HOL-Library.AList"
begin

section \<open>Data model of \<open>emonhub.py\<close>\<close>

text \<open>
  Python dictionaries are association lists: the list order is the iteration order of the
  dictionary, \<open>map_of\<close> is the lookup, \<open>AList.update\<close> the item assignment and
  \<open>AList.delete\<close> the \<open>del\<close> statement.  A missing key raises \<open>KeyError\<close>.
  The keys of a dictionary are distinct; the theorems say so where they need it, and no
  statement depends on the order.

  Exceptions are values: a method that can raise returns \<open>error + hub\<close>, and the state
  at the point of the raise is dropped, since nothing in the program catches an exception
  of \<open>_update_settings\<close> or \<open>run\<close> and goes on.  The snapshot always has its
  \<open>hub\<close>, \<open>dispatchers\<close> and \<open>listeners\<close> sections and a descriptor its
  \<open>init_settings\<close> and \<open>runtime_settings\<close>, so the subscripts of the source on
  these do not raise.
\<close>

datatype error =
    KeyError string
  | AttributeError string
  | EmonHubDispatcherInitError string
  | EmonHubListenerInitError string
  | ValueError string
  | OtherError string

type_synonym settings_dict = "(string \<times> string) list"

text \<open>A decoded reading is a mutable Python list; the hub only handles references to it.\<close>

type_synonym value_ref = nat

datatype level = DEBUG | INFO | WARNING | ERROR | CRITICAL

text \<open>One entry of the \<open>dispatchers\<close> or \<open>listeners\<close> section of the settings.\<close>

record descriptor =
  dtype :: "string option"
  init_settings :: settings_dict
  runtime_settings :: settings_dict

record settings =
  hub_loglevel :: string
  s_dispatchers :: "(string \<times> descriptor) list"
  s_listeners :: "(string \<times> descriptor) list"
  nodes :: "settings_dict option"

text \<open>
  Objects carry the identity they were allocated with (\<open>d_oid\<close>, \<open>l_oid\<close>,
  \<open>q_oid\<close>), taken from the allocation counter \<open>next_oid\<close> of the state.
\<close>

record dispatcher =
  d_oid :: nat
  d_init_settings :: settings_dict
  d_settings :: settings_dict
  d_buffer :: "value_ref list"
  d_stop :: bool

record listener =
  l_oid :: nat
  l_name :: "string option"
  l_init_settings :: settings_dict
  l_settings :: settings_dict
  l_pending :: "value_ref option list"
  l_polls :: nat
  l_closed :: bool

record equeue =
  q_oid :: nat
  q_items :: "value_ref list"

text \<open>
  The state of an \<open>EmonHub\<close> instance, together with the module global
  \<open>ehc.nodelist\<close>, the calls made on the logger, and the handles the hub has let go of
  (in the state in which they left the hub; their own threads still hold them).
\<close>

record hub =
  exit_flag :: bool
  loglevel :: nat
  hub_log :: "(level \<times> string) list"
  dispatchers :: "(string \<times> dispatcher) list"
  listeners :: "(string \<times> listener) list"
  queue :: "(string \<times> equeue) list"
  temp_buffer :: "(string \<times> value_ref list) list"
  nodelist :: settings_dict
  next_oid :: nat
  released_dispatchers :: "dispatcher list"
  released_listeners :: "listener list"

text \<open>
  The modules \<open>emonhub_dispatcher\<close> (\<open>ehd\<close>) and \<open>emonhub_listener\<close> (\<open>ehl\<close>) are
  parameters: \<open>getattr(ehd, t)\<close> is \<open>ehd t\<close>, \<open>None\<close> when the module has no such
  attribute, and a class is its constructor, which returns an instance or raises.
\<close>

type_synonym ehd_module = "string \<Rightarrow> (string \<Rightarrow> settings_dict \<Rightarrow> error + dispatcher) option"
type_synonym ehl_module = "string \<Rightarrow> (settings_dict \<Rightarrow> error + listener) option"

text \<open>
  Python's \<open>logging\<close> module is a parameter too.  \<open>lg_getattr\<close> is
  \<open>getattr(logging, name)\<close>: \<open>None\<close> when the module has no such attribute, an
  integer when the attribute is one (as the level constants are), and some other object
  otherwise (a function such as \<open>logging.debug\<close>).  \<open>lg_check_level\<close> is the check
  that \<open>Logger.setLevel\<close> makes on a level given by name: the number of the level, or
  \<open>None\<close> where it raises \<open>ValueError\<close>.  \<open>lg_root_level\<close> is the level of the
  root logger, which the program never sets.  The field \<open>loglevel\<close> of the state is
  the level of the logger \<open>EmonHub\<close> itself, 0 while it has none.
\<close>

datatype attr = LevelNo nat | OtherObject

record logging_module =
  lg_getattr :: "string \<Rightarrow> attr option"
  lg_check_level :: "string \<Rightarrow> nat option"
  lg_root_level :: nat

record env =
  ehd :: ehd_module
  ehl :: ehl_module
  logging :: logging_module

section \<open>Helpers\<close>

text \<open>The \<open>for\<close> loops of the source: the body runs on each element in turn, threading
  the state; an exception raised by the body leaves the loop.\<close>

fun for_each :: "('a \<Rightarrow> 's \<Rightarrow> error + 's) \<Rightarrow> 'a list \<Rightarrow> 's \<Rightarrow> error + 's" where
  "for_each f [] s = Inr s"
| "for_each f (x # xs) s = (case f x s of Inl e \<Rightarrow> Inl e | Inr s' \<Rightarrow> for_each f xs s')"

text \<open>Python's \<open>==\<close> on dictionaries: the same keys with the same values, in any order.\<close>

definition dict_eq :: "('k \<times> 'v) list \<Rightarrow> ('k \<times> 'v) list \<Rightarrow> bool" where
  "dict_eq a b = list_all (\<lambda>k. map_of a k = map_of b k) (map fst a @ map fst b)"

definition quoted :: "string \<Rightarrow> string" where
  "quoted name = CHR 0x27 # name @ [CHR 0x27]"

definition log_info :: "string \<Rightarrow> hub \<Rightarrow> hub" where
  "log_info msg h = h\<lparr>hub_log := hub_log h @ [(INFO, msg)]\<rparr>"

definition log_error :: "string \<Rightarrow> hub \<Rightarrow> hub" where
  "log_error msg h = h\<lparr>hub_log := hub_log h @ [(ERROR, msg)]\<rparr>"

definition log_debug :: "string \<Rightarrow> hub \<Rightarrow> hub" where
  "log_debug msg h = h\<lparr>hub_log := hub_log h @ [(DEBUG, msg)]\<rparr>"

fun str_error :: "error \<Rightarrow> string" where
  "str_error (KeyError m) = m"
| "str_error (AttributeError m) = m"
| "str_error (EmonHubDispatcherInitError m) = m"
| "str_error (EmonHubListenerInitError m) = m"
| "str_error (ValueError m) = m"
| "str_error (OtherError m) = m"

text \<open>Which exceptions the two \<open>except\<close> clauses catch.\<close>

fun is_dispatcher_init_error :: "error \<Rightarrow> bool" where
  "is_dispatcher_init_error (EmonHubDispatcherInitError m) = True"
| "is_dispatcher_init_error _ = False"

fun is_listener_init_error :: "error \<Rightarrow> bool" where
  "is_listener_init_error (EmonHubListenerInitError m) = True"
| "is_listener_init_error _ = False"

text \<open>Modelled from the spec: the \<open>set(runtime_settings)\<close> method of the dispatcher and
  listener classes, which are not in the source file; it hot-applies the runtime settings
  of the descriptor to the handle and touches nothing else.\<close>

definition dispatcher_set :: "settings_dict \<Rightarrow> dispatcher \<Rightarrow> dispatcher" where
  "dispatcher_set kwargs d = d\<lparr>d_settings := kwargs\<rparr>"

definition listener_set :: "settings_dict \<Rightarrow> listener \<Rightarrow> listener" where
  "listener_set kwargs l = l\<lparr>l_settings := kwargs\<rparr>"

text \<open>Modelled from the spec: the listener capability \<open>run()\<close>, \<open>read()\<close> and
  \<open>close()\<close>, which is not in the source file.  \<open>l_pending\<close> holds what the coming
  calls of \<open>read()\<close> return (none once it is used up), \<open>l_polls\<close> counts the calls.\<close>

definition listener_read :: "listener \<Rightarrow> value_ref option \<times> listener" where
  "listener_read l =
     (case l_pending l of
        [] \<Rightarrow> (None, l\<lparr>l_polls := Suc (l_polls l)\<rparr>)
      | v # vs \<Rightarrow> (v, l\<lparr>l_pending := vs, l_polls := Suc (l_polls l)\<rparr>))"

definition listener_close :: "listener \<Rightarrow> listener" where
  "listener_close l = l\<lparr>l_closed := True\<rparr>"

section \<open>\<open>EmonHub._set_logging_level\<close>\<close>

text \<open>\<open>self._log.getEffectiveLevel()\<close>: the level of the logger, or that of the root
  logger, its parent, while it has none.\<close>

definition get_effective_level :: "logging_module \<Rightarrow> hub \<Rightarrow> nat" where
  "get_effective_level lg h = (if loglevel h \<noteq> 0 then loglevel h else lg_root_level lg)"

text \<open>Only \<open>AttributeError\<close> is caught; the \<open>ValueError\<close> of \<open>setLevel\<close> for a name
  that is an attribute of the module without being the name of a level leaves the
  method.\<close>

definition set_logging_level :: "logging_module \<Rightarrow> string \<Rightarrow> hub \<Rightarrow> error + hub" where
  "set_logging_level lg lvl h =
     (case lg_getattr lg lvl of
        None \<Rightarrow> Inr (log_error (''Logging level '' @ lvl @ '' invalid'') h)
      | Some a \<Rightarrow>
          if a \<noteq> LevelNo (get_effective_level lg h) then
            (case lg_check_level lg lvl of
               None \<Rightarrow> Inl (ValueError (''Unknown level: '' @ quoted lvl))
             | Some n \<Rightarrow> Inr (log_info (''Logging level set to '' @ lvl) (h\<lparr>loglevel := n\<rparr>)))
          else Inr h)"

section \<open>\<open>EmonHub._update_settings\<close>\<close>

subsection \<open>Dispatchers: the deletion loop (lines 134 to 146)\<close>

definition drop_dispatcher :: "string \<Rightarrow> dispatcher \<Rightarrow> hub \<Rightarrow> hub" where
  "drop_dispatcher name d h =
     (let h1 = log_info (''Deleting dispatcher '' @ quoted name) h
      in h1\<lparr>dispatchers := AList.delete name (dispatchers h1),
            released_dispatchers := released_dispatchers h1 @ [d\<lparr>d_stop := True\<rparr>]\<rparr>)"

definition delete_dispatcher :: "settings \<Rightarrow> string \<Rightarrow> hub \<Rightarrow> error + hub" where
  "delete_dispatcher s name h =
     (case map_of (dispatchers h) name of
        None \<Rightarrow> Inl (KeyError name)
      | Some d \<Rightarrow>
          (case map_of (s_dispatchers s) name of
             None \<Rightarrow> Inl (KeyError name)
           | Some dis \<Rightarrow>
               if \<not> dict_eq (d_init_settings d) (init_settings dis) then
                 Inr (drop_dispatcher name d
                       (if d_buffer d \<noteq> []
                        then h\<lparr>temp_buffer := AList.update name (d_buffer d) (temp_buffer h)\<rparr>
                        else h))
               else if map_of (s_dispatchers s) name \<noteq> None \<and> dtype dis \<noteq> None then Inr h
               else Inr (drop_dispatcher name d h)))"

subsection \<open>Dispatchers: the creation loop (lines 147 to 170)\<close>

definition apply_dispatcher_runtime :: "string \<Rightarrow> descriptor \<Rightarrow> hub \<Rightarrow> error + hub" where
  "apply_dispatcher_runtime name dis h =
     (case map_of (dispatchers h) name of
        None \<Rightarrow> Inl (KeyError name)
      | Some d \<Rightarrow>
          Inr (h\<lparr>dispatchers :=
                   AList.update name (dispatcher_set (runtime_settings dis) d) (dispatchers h)\<rparr>))"

definition new_queue :: "string \<Rightarrow> hub \<Rightarrow> hub" where
  "new_queue name h =
     h\<lparr>queue := AList.update name \<lparr>q_oid = next_oid h, q_items = []\<rparr> (queue h),
       next_oid := Suc (next_oid h)\<rparr>"

definition register_dispatcher :: "string \<Rightarrow> descriptor \<Rightarrow> dispatcher \<Rightarrow> hub \<Rightarrow> hub" where
  "register_dispatcher name dis d0 h =
     (let d1 = d0\<lparr>d_oid := next_oid h, d_init_settings := init_settings dis\<rparr>;
          h1 = h\<lparr>next_oid := Suc (next_oid h)\<rparr>
      in case map_of (temp_buffer h1) name of
           None \<Rightarrow> h1\<lparr>dispatchers := AList.update name d1 (dispatchers h1)\<rparr>
         | Some b \<Rightarrow>
             h1\<lparr>temp_buffer := AList.delete name (temp_buffer h1),
                dispatchers := AList.update name (d1\<lparr>d_buffer := b\<rparr>) (dispatchers h1)\<rparr>)"

definition create_dispatcher :: "ehd_module \<Rightarrow> string \<times> descriptor \<Rightarrow> hub \<Rightarrow> error + hub" where
  "create_dispatcher m nd h =
     (let name = fst nd; dis = snd nd in
      if map_of (dispatchers h) name = None then
        (case dtype dis of
           None \<Rightarrow> Inr h
         | Some t \<Rightarrow>
             (let h1 = new_queue name (log_info (''Creating '' @ t @ '' '' @ quoted name @ '' '') h)
              in case m t of
                   None \<Rightarrow> Inl (AttributeError t)
                 | Some cls \<Rightarrow>
                     (case cls name (init_settings dis) of
                        Inl e \<Rightarrow>
                          if is_dispatcher_init_error e
                          then Inr (log_error (''Failed to create '' @ quoted name
                                                @ '' dispatcher: '' @ str_error e) h1)
                          else Inl e
                      | Inr d0 \<Rightarrow>
                          apply_dispatcher_runtime name dis (register_dispatcher name dis d0 h1))))
      else apply_dispatcher_runtime name dis h)"

subsection \<open>Listeners: the deletion loop (lines 173 to 183)\<close>

definition drop_listener :: "string \<Rightarrow> listener \<Rightarrow> hub \<Rightarrow> hub" where
  "drop_listener name l h =
     (let h1 = log_info (''Deleting listener '' @ quoted name @ '' '') h
      in h1\<lparr>listeners := AList.delete name (listeners h1),
            released_listeners := released_listeners h1 @ [listener_close l]\<rparr>)"

definition delete_listener :: "settings \<Rightarrow> string \<Rightarrow> hub \<Rightarrow> error + hub" where
  "delete_listener s name h =
     (case map_of (listeners h) name of
        None \<Rightarrow> Inl (KeyError name)
      | Some l \<Rightarrow>
          (case map_of (s_listeners s) name of
             None \<Rightarrow> Inl (KeyError name)
           | Some lis \<Rightarrow>
               if \<not> dict_eq (l_init_settings l) (init_settings lis) then
                 Inr (drop_listener name l h)
               else if map_of (s_listeners s) name \<noteq> None \<and> dtype lis \<noteq> None then Inr h
               else Inr (drop_listener name l h)))"

subsection \<open>Listeners: the creation loop (lines 184 to 202)\<close>

definition apply_listener_runtime :: "string \<Rightarrow> descriptor \<Rightarrow> hub \<Rightarrow> error + hub" where
  "apply_listener_runtime name lis h =
     (case map_of (listeners h) name of
        None \<Rightarrow> Inl (KeyError name)
      | Some l \<Rightarrow>
          Inr (h\<lparr>listeners :=
                   AList.update name (listener_set (runtime_settings lis) l) (listeners h)\<rparr>))"

definition register_listener :: "string \<Rightarrow> descriptor \<Rightarrow> listener \<Rightarrow> hub \<Rightarrow> hub" where
  "register_listener name lis l0 h =
     (let l1 = l0\<lparr>l_oid := next_oid h, l_init_settings := init_settings lis,
                  l_name := Some name\<rparr>
      in h\<lparr>next_oid := Suc (next_oid h), listeners := AList.update name l1 (listeners h)\<rparr>)"

definition create_listener :: "ehl_module \<Rightarrow> string \<times> descriptor \<Rightarrow> hub \<Rightarrow> error + hub" where
  "create_listener m nl h =
     (let name = fst nl; lis = snd nl in
      if map_of (listeners h) name = None then
        (case dtype lis of
           None \<Rightarrow> Inr h
         | Some t \<Rightarrow>
             (let h1 = log_info (''Creating '' @ t @ '' '' @ quoted name @ '' '') h
              in case m t of
                   None \<Rightarrow> Inl (AttributeError t)
                 | Some cls \<Rightarrow>
                     (case cls (init_settings lis) of
                        Inl e \<Rightarrow>
                          if is_listener_init_error e
                          then Inr (log_error (''Failed to create '' @ quoted name
                                                @ '' listener: '' @ str_error e) h1)
                          else Inl e
                      | Inr l0 \<Rightarrow>
                          apply_listener_runtime name lis (register_listener name lis l0 h1))))
      else apply_listener_runtime name lis h)"

subsection \<open>The whole method\<close>

definition publish_nodes :: "settings \<Rightarrow> hub \<Rightarrow> hub" where
  "publish_nodes s h = (case nodes s of None \<Rightarrow> h | Some n \<Rightarrow> h\<lparr>nodelist := n\<rparr>)"

definition update_settings :: "env \<Rightarrow> settings \<Rightarrow> hub \<Rightarrow> error + hub" where
  "update_settings e s h =
     (case set_logging_level (logging e) (hub_loglevel s) h of
        Inl x \<Rightarrow> Inl x
      | Inr hl \<Rightarrow>
     (let h0 = hl\<lparr>temp_buffer := []\<rparr> in
      case for_each (delete_dispatcher s) (map fst (dispatchers h0)) h0 of
        Inl x \<Rightarrow> Inl x
      | Inr h1 \<Rightarrow>
     (case for_each (create_dispatcher (ehd e)) (s_dispatchers s) h1 of
        Inl x \<Rightarrow> Inl x
      | Inr h2 \<Rightarrow>
     (case for_each (delete_listener s) (map fst (listeners h2)) h2 of
        Inl x \<Rightarrow> Inl x
      | Inr h3 \<Rightarrow>
     (case for_each (create_listener (ehl e)) (s_listeners s) h3 of
        Inl x \<Rightarrow> Inl x
      | Inr h4 \<Rightarrow> Inr (publish_nodes s h4))))))"

section \<open>\<open>EmonHub.__init__\<close>\<close>

definition empty_hub :: hub where
  "empty_hub =
     \<lparr>exit_flag = False, loglevel = 0, hub_log = [], dispatchers = [], listeners = [],
      queue = [], temp_buffer = [], nodelist = [], next_oid = 0,
      released_dispatchers = [], released_listeners = []\<rparr>"

definition init_hub :: "env \<Rightarrow> settings \<Rightarrow> error + hub" where
  "init_hub e s =
     (case set_logging_level (logging e) (hub_loglevel s) empty_hub of
        Inl x \<Rightarrow> Inl x
      | Inr h0 \<Rightarrow>
          update_settings e s
            (log_info ''Opening hub...''
              (log_info ''EmonHub Pre-Release Development Version'' h0)))"

section \<open>\<open>EmonHub.run\<close>, \<open>EmonHub._sigint_handler\<close> and \<open>EmonHub.close\<close>\<close>

definition pause_spellings :: "string list" where
  "pause_spellings =
     [''i'', ''I'', ''in'', ''In'', ''IN'', ''t'', ''T'', ''true'', ''True'', ''TRUE'']"

definition paused :: "dispatcher \<Rightarrow> bool" where
  "paused d =
     (case map_of (d_settings d) ''pause'' of
        None \<Rightarrow> False
      | Some p \<Rightarrow> p \<in> set pause_spellings)"

text \<open>The inner loop (lines 94 to 100): \<open>values\<close> itself, not a copy, is put on the
  queue of each dispatcher that is not paused.\<close>

definition put_values :: "value_ref \<Rightarrow> string \<Rightarrow> hub \<Rightarrow> error + hub" where
  "put_values v name h =
     (case map_of (dispatchers h) name of
        None \<Rightarrow> Inl (KeyError name)
      | Some d \<Rightarrow>
          if paused d then Inr h
          else
            (case map_of (queue h) name of
               None \<Rightarrow> Inl (KeyError name)
             | Some q \<Rightarrow>
                 Inr (h\<lparr>queue := AList.update name (q\<lparr>q_items := q_items q @ [v]\<rparr>) (queue h)\<rparr>)))"

text \<open>The body of the loop over the listeners (lines 86 to 100).\<close>

definition poll_listener :: "string \<Rightarrow> hub \<Rightarrow> error + hub" where
  "poll_listener lname h =
     (case map_of (listeners h) lname of
        None \<Rightarrow> Inl (KeyError lname)
      | Some l \<Rightarrow>
          (let r = listener_read l;
               h1 = h\<lparr>listeners := AList.update lname (snd r) (listeners h)\<rparr>
           in case fst r of
                None \<Rightarrow> Inr h1
              | Some v \<Rightarrow> for_each (put_values v) (map fst (dispatchers h1)) h1))"

definition poll_listeners :: "hub \<Rightarrow> error + hub" where
  "poll_listeners h = for_each poll_listener (map fst (listeners h)) h"

definition sigint_handler :: "hub \<Rightarrow> hub" where
  "sigint_handler h = (log_debug ''SIGINT received.'' h)\<lparr>exit_flag := True\<rparr>"

text \<open>
  What one iteration of the main loop receives from outside: the settings of the interface
  when \<open>check_settings()\<close> reports a change, and SIGINT.  The handler runs between two
  steps of the main thread and only logs and sets \<open>_exit\<close>; \<open>sigint t = Some k\<close>
  says that it runs in this iteration when the sweep has polled \<open>k\<close> listeners
  (\<open>0\<close>: before the sweep, also for a signal during the reconciliation, which does not
  read \<open>_exit\<close>; the number of listeners or more: after the sweep).
\<close>

record tick =
  new_settings :: "settings option"
  sigint :: "nat option"

definition sweep_with_signal :: "nat \<Rightarrow> hub \<Rightarrow> error + hub" where
  "sweep_with_signal k h =
     (case for_each poll_listener (take k (map fst (listeners h))) h of
        Inl x \<Rightarrow> Inl x
      | Inr h1 \<Rightarrow> for_each poll_listener (drop k (map fst (listeners h))) (sigint_handler h1))"

definition iteration :: "env \<Rightarrow> tick \<Rightarrow> hub \<Rightarrow> error + hub" where
  "iteration e t h =
     (case (case new_settings t of None \<Rightarrow> Inr h | Some s \<Rightarrow> update_settings e s h) of
        Inl x \<Rightarrow> Inl x
      | Inr h1 \<Rightarrow>
          (case sigint t of None \<Rightarrow> poll_listeners h1 | Some k \<Rightarrow> sweep_with_signal k h1))"

text \<open>The \<open>while not self._exit\<close> loop on a finite prefix of the inputs: \<open>None\<close> when
  the loop is still running at the end of the prefix.\<close>

fun run :: "env \<Rightarrow> tick list \<Rightarrow> hub \<Rightarrow> (error + hub) option" where
  "run e [] h = (if exit_flag h then Some (Inr h) else None)"
| "run e (t # ts) h =
     (if exit_flag h then Some (Inr h)
      else (case iteration e t h of Inl x \<Rightarrow> Some (Inl x) | Inr h' \<Rightarrow> run e ts h'))"

definition close :: "hub \<Rightarrow> hub" where
  "close h =
     log_info ''Exiting hub...''
       (h\<lparr>listeners := map (\<lambda>(n, l). (n, listener_close l)) (listeners h),
          dispatchers := map (\<lambda>(n, d). (n, d\<lparr>d_stop := True\<rparr>)) (dispatchers h)\<rparr>)"

text \<open>\<open>hub.run()\<close> followed by \<open>hub.close()\<close>, as the main program calls them.\<close>

definition run_and_close :: "env \<Rightarrow> tick list \<Rightarrow> hub \<Rightarrow> (error + hub) option" where
  "run_and_close e ts h =
     (case run e ts h of
        None \<Rightarrow> None
      | Some (Inl x) \<Rightarrow> Some (Inl x)
      | Some (Inr h') \<Rightarrow> Some (Inr (close h')))"

section \<open>A concrete module pair, hub and configuration\<close>

text \<open>The examples below run the model on these: a dispatcher class \<open>D\<close> that
  needs a \<open>url\<close>, a listener class \<open>L\<close> that needs a \<open>port\<close>, and a hub with
  three dispatchers and two listeners.  The logging module has the level constants of
  Python 2.7 (\<open>FATAL\<close> and \<open>WARN\<close> among them), of which \<open>setLevel\<close> takes all
  but \<open>FATAL\<close> by name, and the function \<open>debug\<close>.\<close>

definition ex_levels :: "(string \<times> nat) list" where
  "ex_levels =
     [(''CRITICAL'', 50), (''ERROR'', 40), (''WARNING'', 30), (''WARN'', 30), (''INFO'', 20),
      (''DEBUG'', 10), (''NOTSET'', 0)]"

definition ex_logging :: logging_module where
  "ex_logging =
     \<lparr>lg_getattr = (\<lambda>name. case map_of ex_levels name of
                            Some k \<Rightarrow> Some (LevelNo k)
                          | None \<Rightarrow> if name = ''FATAL'' then Some (LevelNo 50)
                                    else if name = ''debug'' then Some OtherObject
                                    else None),
      lg_check_level = map_of ex_levels,
      lg_root_level = 30\<rparr>"

definition ex_dispatcher :: dispatcher where
  "ex_dispatcher =
     \<lparr>d_oid = 0, d_init_settings = [], d_settings = [], d_buffer = [], d_stop = False\<rparr>"

definition ex_listener :: listener where
  "ex_listener =
     \<lparr>l_oid = 0, l_name = None, l_init_settings = [], l_settings = [], l_pending = [],
      l_polls = 0, l_closed = False\<rparr>"

definition ex_env :: env where
  "ex_env =
     \<lparr>ehd = (\<lambda>t. if t = ''D''
                 then Some (\<lambda>name kw. if map_of kw ''url'' = None
                                       then Inl (EmonHubDispatcherInitError ''no url'')
                                       else Inr ex_dispatcher)
                 else None),
      ehl = (\<lambda>t. if t = ''L''
                 then Some (\<lambda>kw. if map_of kw ''port'' = None
                                  then Inl (EmonHubListenerInitError ''no port'')
                                  else Inr ex_listener)
                 else None),
      logging = ex_logging\<rparr>"

definition ex_hub :: hub where
  "ex_hub =
     \<lparr>exit_flag = False, loglevel = 10, hub_log = [],
      dispatchers =
        [(''d1'', \<lparr>d_oid = 1, d_init_settings = [(''url'', ''a'')], d_settings = [],
                   d_buffer = [5, 6], d_stop = False\<rparr>),
         (''d2'', \<lparr>d_oid = 3, d_init_settings = [(''url'', ''b'')],
                   d_settings = [(''pause'', ''true'')], d_buffer = [], d_stop = False\<rparr>),
         (''d3'', \<lparr>d_oid = 5, d_init_settings = [(''url'', ''c'')],
                   d_settings = [(''pause'', ''truE'')], d_buffer = [], d_stop = False\<rparr>)],
      listeners =
        [(''l1'', \<lparr>l_oid = 6, l_name = Some ''l1'', l_init_settings = [(''port'', ''1'')],
                   l_settings = [], l_pending = [Some 7, None], l_polls = 0,
                   l_closed = False\<rparr>),
         (''l2'', \<lparr>l_oid = 7, l_name = Some ''l2'', l_init_settings = [(''port'', ''2'')],
                   l_settings = [], l_pending = [Some 8], l_polls = 0,
                   l_closed = False\<rparr>)],
      queue =
        [(''d1'', \<lparr>q_oid = 0, q_items = [4]\<rparr>), (''d2'', \<lparr>q_oid = 2, q_items = []\<rparr>),
         (''d3'', \<lparr>q_oid = 4, q_items = []\<rparr>)],
      temp_buffer = [], nodelist = [(''10'', ''emontx'')], next_oid = 8,
      released_dispatchers = [], released_listeners = []\<rparr>"

definition ex_desc :: "string option \<Rightarrow> settings_dict \<Rightarrow> settings_dict \<Rightarrow> descriptor" where
  "ex_desc t i r = \<lparr>dtype = t, init_settings = i, runtime_settings = r\<rparr>"

definition ex_settings :: "(string \<times> descriptor) list \<Rightarrow> (string \<times> descriptor) list \<Rightarrow> settings" where
  "ex_settings ds ls = \<lparr>hub_loglevel = ''DEBUG'', s_dispatchers = ds, s_listeners = ls, nodes = None\<rparr>"

definition ex_d1 :: "string \<times> descriptor" where
  "ex_d1 = (''d1'', ex_desc (Some ''D'') [(''url'', ''a'')] [])"
definition ex_d2 :: "string \<times> descriptor" where
  "ex_d2 = (''d2'', ex_desc (Some ''D'') [(''url'', ''b'')] [(''pause'', ''true'')])"
definition ex_d3 :: "string \<times> descriptor" where
  "ex_d3 = (''d3'', ex_desc (Some ''D'') [(''url'', ''c'')] [(''pause'', ''truE'')])"
definition ex_l1 :: "string \<times> descriptor" where
  "ex_l1 = (''l1'', ex_desc (Some ''L'') [(''port'', ''1'')] [])"
definition ex_l2 :: "string \<times> descriptor" where
  "ex_l2 = (''l2'', ex_desc (Some ''L'') [(''port'', ''2'')] [])"

definition ex_d1_moved :: "string \<times> descriptor" where
  "ex_d1_moved = (''d1'', ex_desc (Some ''D'') [(''url'', ''z'')] [])"

definition ex_d1_bad :: "string \<times> descriptor" where
  "ex_d1_bad = (''d1'', ex_desc (Some ''D'') [] [])"

definition ex_d2_bad :: "string \<times> descriptor" where
  "ex_d2_bad = (''d2'', ex_desc (Some ''D'') [] [])"

definition ex_d1_untyped :: "string \<times> descriptor" where
  "ex_d1_untyped = (''d1'', ex_desc None [(''url'', ''a'')] [])"

definition ex_l1_moved :: "string \<times> descriptor" where
  "ex_l1_moved = (''l1'', ex_desc (Some ''L'') [(''port'', ''9'')] [])"

definition ex_tick :: "(string \<times> descriptor) list \<Rightarrow> (string \<times> descriptor) list \<Rightarrow> error + hub" where
  "ex_tick ds ls = update_settings ex_env (ex_settings ds ls) ex_hub"

definition ex_started :: "error + hub" where
  "ex_started = init_hub ex_env (ex_settings [ex_d1] [ex_l1])"

definition ex_reload :: "settings \<Rightarrow> tick" where
  "ex_reload s = \<lparr>new_settings = Some s, sigint = None\<rparr>"

definition ex_quiet :: tick where
  "ex_quiet = \<lparr>new_settings = None, sigint = None\<rparr>"

definition ex_sigint :: tick where
  "ex_sigint = \<lparr>new_settings = None, sigint = Some 1\<rparr>"


section \<open>Auxiliary notions\<close>

text \<open>The state in which the first loop of \<open>_update_settings\<close> starts: the logging
  level has been looked at and the buffer side table is empty.\<close>

definition tick_start :: "hub \<Rightarrow> hub \<Rightarrow> bool" where
  "tick_start h h0 \<longleftrightarrow>
     nodelist h0 = nodelist h \<and> dispatchers h0 = dispatchers h \<and>
     listeners h0 = listeners h \<and> queue h0 = queue h \<and> next_oid h0 = next_oid h \<and>
     exit_flag h0 = exit_flag h \<and> released_dispatchers h0 = released_dispatchers h \<and>
     released_listeners h0 = released_listeners h \<and> temp_buffer h0 = []"

text \<open>Two states agree on a dispatcher name: the entries of the name in the dispatcher,
  queue and buffer side tables are the same, and nothing has been taken back from the
  allocation counter, the log and the released handles.\<close>

definition d_agree :: "string \<Rightarrow> hub \<Rightarrow> hub \<Rightarrow> bool" where
  "d_agree n a b \<longleftrightarrow>
     map_of (dispatchers b) n = map_of (dispatchers a) n \<and>
     map_of (queue b) n = map_of (queue a) n \<and>
     map_of (temp_buffer b) n = map_of (temp_buffer a) n \<and>
     next_oid a \<le> next_oid b \<and>
     set (hub_log a) \<subseteq> set (hub_log b) \<and>
     set (released_dispatchers a) \<subseteq> set (released_dispatchers b)"


text \<open>The same for a listener name.\<close>

definition l_agree :: "string \<Rightarrow> hub \<Rightarrow> hub \<Rightarrow> bool" where
  "l_agree n a b \<longleftrightarrow>
     map_of (listeners b) n = map_of (listeners a) n \<and>
     next_oid a \<le> next_oid b \<and>
     set (hub_log a) \<subseteq> set (hub_log b) \<and>
     set (released_listeners a) \<subseteq> set (released_listeners b)"

text \<open>The instance that the constructor call of a descriptor yields (lines 157 and 192),
  when the descriptor has a type, the module has the class and the class accepts the
  settings.\<close>

definition construct_dispatcher :: "ehd_module \<Rightarrow> string \<Rightarrow> descriptor \<Rightarrow> dispatcher option" where
  "construct_dispatcher m name dis =
     (case dtype dis of
        None \<Rightarrow> None
      | Some t \<Rightarrow>
          (case m t of
             None \<Rightarrow> None
           | Some cls \<Rightarrow>
               (case cls name (init_settings dis) of Inl x \<Rightarrow> None | Inr d0 \<Rightarrow> Some d0)))"

definition construct_listener :: "ehl_module \<Rightarrow> descriptor \<Rightarrow> listener option" where
  "construct_listener m lis =
     (case dtype lis of
        None \<Rightarrow> None
      | Some t \<Rightarrow>
          (case m t of
             None \<Rightarrow> None
           | Some cls \<Rightarrow>
               (case cls (init_settings lis) of Inl x \<Rightarrow> None | Inr l0 \<Rightarrow> Some l0)))"


text \<open>A descriptor settles when constructing it raises nothing that escapes the
  \<open>except\<close> clause of its loop; its rejection is the init error the constructor
  raises; a live dispatcher is retained when the deletion loop passes over it.\<close>

definition dispatcher_settles :: "ehd_module \<Rightarrow> string \<times> descriptor \<Rightarrow> bool" where
  "dispatcher_settles m nd =
     (case dtype (snd nd) of
        None \<Rightarrow> True
      | Some t \<Rightarrow>
          (case m t of
             None \<Rightarrow> False
           | Some cls \<Rightarrow>
               (case cls (fst nd) (init_settings (snd nd)) of
                  Inl x \<Rightarrow> is_dispatcher_init_error x
                | Inr d0 \<Rightarrow> True)))"

definition listener_settles :: "ehl_module \<Rightarrow> string \<times> descriptor \<Rightarrow> bool" where
  "listener_settles m nl =
     (case dtype (snd nl) of
        None \<Rightarrow> True
      | Some t \<Rightarrow>
          (case m t of
             None \<Rightarrow> False
           | Some cls \<Rightarrow>
               (case cls (init_settings (snd nl)) of
                  Inl x \<Rightarrow> is_listener_init_error x
                | Inr l0 \<Rightarrow> True)))"

definition dispatcher_rejection :: "ehd_module \<Rightarrow> string \<times> descriptor \<Rightarrow> error option" where
  "dispatcher_rejection m nd =
     (case dtype (snd nd) of
        None \<Rightarrow> None
      | Some t \<Rightarrow>
          (case m t of
             None \<Rightarrow> None
           | Some cls \<Rightarrow>
               (case cls (fst nd) (init_settings (snd nd)) of
                  Inl x \<Rightarrow> if is_dispatcher_init_error x then Some x else None
                | Inr d0 \<Rightarrow> None)))"

definition dispatcher_built :: "ehd_module \<Rightarrow> string \<times> descriptor \<Rightarrow> bool" where
  "dispatcher_built m nd \<longleftrightarrow> construct_dispatcher m (fst nd) (snd nd) \<noteq> None"

definition retains_dispatcher :: "settings \<Rightarrow> hub \<Rightarrow> string \<Rightarrow> bool" where
  "retains_dispatcher s h n =
     (case map_of (dispatchers h) n of
        None \<Rightarrow> False
      | Some d \<Rightarrow>
          (case map_of (s_dispatchers s) n of
             None \<Rightarrow> False
           | Some dis \<Rightarrow> dict_eq (d_init_settings d) (init_settings dis) \<and> dtype dis \<noteq> None))"


text \<open>The records that one sweep over the listeners obtains, in the order of the sweep;
  a queue with more items; the queue table after a sweep that obtained \<open>vs\<close>; and the
  invariant that every live dispatcher has a queue.\<close>

definition enqueue :: "value_ref list \<Rightarrow> equeue \<Rightarrow> equeue" where
  "enqueue vs q = q\<lparr>q_items := q_items q @ vs\<rparr>"

definition produced_by :: "string list \<Rightarrow> hub \<Rightarrow> value_ref list" where
  "produced_by lns h =
     List.map_filter
       (\<lambda>ln. case map_of (listeners h) ln of None \<Rightarrow> None | Some l \<Rightarrow> fst (listener_read l))
       lns"

definition produced :: "hub \<Rightarrow> value_ref list" where
  "produced h = produced_by (map fst (listeners h)) h"

definition fanned :: "hub \<Rightarrow> value_ref list \<Rightarrow> string \<Rightarrow> equeue option" where
  "fanned a vs n =
     (case map_of (dispatchers a) n of
        None \<Rightarrow> map_of (queue a) n
      | Some d \<Rightarrow> map_option (enqueue (if paused d then [] else vs)) (map_of (queue a) n))"

definition covered :: "hub \<Rightarrow> bool" where
  "covered h \<longleftrightarrow> list_all (\<lambda>n. map_of (queue h) n \<noteq> None) (map fst (dispatchers h))"


text \<open>What a sweep over the listeners leaves alone, and queue tables that only grow.\<close>

definition sweep_frame :: "hub \<Rightarrow> hub \<Rightarrow> bool" where
  "sweep_frame a b \<longleftrightarrow>
     dispatchers b = dispatchers a \<and> exit_flag b = exit_flag a \<and>
     (\<forall>n. map_of (queue b) n \<noteq> None \<longleftrightarrow> map_of (queue a) n \<noteq> None)"

definition keeps_queues :: "hub \<Rightarrow> hub \<Rightarrow> bool" where
  "keeps_queues a b \<longleftrightarrow> (\<forall>n. map_of (queue a) n \<noteq> None \<longrightarrow> map_of (queue b) n \<noteq> None)"


text \<open>The states of the hub between the iterations of the main loop: the state that
  \<open>__init__\<close> builds, and the state after each iteration that completes.\<close>

inductive reachable :: "env \<Rightarrow> hub \<Rightarrow> bool" for e :: env where
  started: "init_hub e s = Inr h \<Longrightarrow> reachable e h"
| iterated: "reachable e h \<Longrightarrow> iteration e t h = Inr h' \<Longrightarrow> reachable e h'"


section \<open>Loops, dictionaries and frame conditions\<close>

lemma for_each_inv:
  assumes "for_each f xs s = Inr s'" and "P s"
    and "\<And>x a b. x \<in> set xs \<Longrightarrow> P a \<Longrightarrow> f x a = Inr b \<Longrightarrow> P b"
  shows "P s'"
  using assms
proof (induction xs arbitrary: s)
  case Nil
  then show ?case by simp
next
  case (Cons x xs)
  from Cons.prems(1) obtain m where m: "f x s = Inr m" and r: "for_each f xs m = Inr s'"
    by (auto split: sum.splits)
  have "P m" using Cons.prems(2,3) m by auto
  then show ?case using Cons.IH [OF r] Cons.prems(3) by auto
qed

lemma for_each_returns:
  assumes "P s"
    and "\<And>x a. x \<in> set xs \<Longrightarrow> P a \<Longrightarrow> \<exists>b. f x a = Inr b \<and> P b"
  shows "\<exists>s'. for_each f xs s = Inr s' \<and> P s'"
  using assms
proof (induction xs arbitrary: s)
  case Nil
  then show ?case by simp
next
  case (Cons x xs)
  from Cons.prems obtain m where m: "f x s = Inr m" "P m" by fastforce
  from Cons.IH [OF m(2)] Cons.prems(2) obtain s' where "for_each f xs m = Inr s'" "P s'"
    by auto
  then show ?case using m by auto
qed

lemma for_each_append:
  "for_each f (xs @ ys) s = (case for_each f xs s of Inl e \<Rightarrow> Inl e | Inr m \<Rightarrow> for_each f ys m)"
  by (induction xs arbitrary: s) (auto split: sum.splits)

lemma dict_eq_map_of: "dict_eq a b \<longleftrightarrow> map_of a = map_of b"
proof
  assume h: "dict_eq a b"
  show "map_of a = map_of b"
  proof
    fix k
    show "map_of a k = map_of b k"
    proof (cases "k \<in> set (map fst a @ map fst b)")
      case True
      then show ?thesis using h by (simp add: dict_eq_def list_all_iff)
    next
      case False
      then have "map_of a k = None" "map_of b k = None"
        by (auto simp: map_of_eq_None_iff)
      then show ?thesis by simp
    qed
  qed
next
  assume "map_of a = map_of b"
  then show "dict_eq a b" by (simp add: dict_eq_def list_all_iff)
qed

lemma delete_dispatcher_frame:
  "delete_dispatcher s x h = Inr h' \<Longrightarrow>
     queue h' = queue h \<and> listeners h' = listeners h \<and> next_oid h' = next_oid h \<and>
     nodelist h' = nodelist h \<and> exit_flag h' = exit_flag h \<and>
     released_listeners h' = released_listeners h \<and> loglevel h' = loglevel h"
  by (auto simp: delete_dispatcher_def drop_dispatcher_def log_info_def Let_def
           split: option.splits if_splits)

lemma create_dispatcher_frame:
  "create_dispatcher m x h = Inr h' \<Longrightarrow>
     listeners h' = listeners h \<and> next_oid h \<le> next_oid h' \<and>
     nodelist h' = nodelist h \<and> exit_flag h' = exit_flag h \<and>
     released_listeners h' = released_listeners h \<and> loglevel h' = loglevel h \<and>
     released_dispatchers h' = released_dispatchers h"
  by (auto simp: create_dispatcher_def apply_dispatcher_runtime_def new_queue_def
        register_dispatcher_def log_info_def log_error_def Let_def
           split: option.splits if_splits sum.splits)

lemma delete_listener_frame:
  "delete_listener s x h = Inr h' \<Longrightarrow>
     queue h' = queue h \<and> dispatchers h' = dispatchers h \<and> next_oid h' = next_oid h \<and>
     nodelist h' = nodelist h \<and> exit_flag h' = exit_flag h \<and>
     released_dispatchers h' = released_dispatchers h \<and> loglevel h' = loglevel h \<and>
     temp_buffer h' = temp_buffer h"
  by (auto simp: delete_listener_def drop_listener_def log_info_def Let_def
           split: option.splits if_splits)

lemma create_listener_frame:
  "create_listener m x h = Inr h' \<Longrightarrow>
     queue h' = queue h \<and> dispatchers h' = dispatchers h \<and> next_oid h \<le> next_oid h' \<and>
     nodelist h' = nodelist h \<and> exit_flag h' = exit_flag h \<and>
     released_dispatchers h' = released_dispatchers h \<and> loglevel h' = loglevel h \<and>
     temp_buffer h' = temp_buffer h \<and> released_listeners h' = released_listeners h"
  by (auto simp: create_listener_def apply_listener_runtime_def
        register_listener_def log_info_def log_error_def Let_def
           split: option.splits if_splits sum.splits)

lemma for_each_local:
  assumes run: "for_each f xs s = Inr s'"
    and dist: "distinct (map key xs)"
    and mem: "x \<in> set xs"
    and other: "\<And>y a b. y \<in> set xs \<Longrightarrow> key y \<noteq> key x \<Longrightarrow> f y a = Inr b \<Longrightarrow> R a b"
    and refl: "\<And>a. R a a"
    and trans: "\<And>a b c. R a b \<Longrightarrow> R b c \<Longrightarrow> R a c"
  shows "\<exists>a b. R s a \<and> f x a = Inr b \<and> R b s'"
proof -
  from mem obtain ys zs where xs: "xs = ys @ x # zs"
    by (auto dest: split_list)
  from dist xs have ky: "\<And>y. y \<in> set ys \<Longrightarrow> key y \<noteq> key x"
    and kz: "\<And>z. z \<in> set zs \<Longrightarrow> key z \<noteq> key x"
    by (auto simp: image_iff)
  from run xs obtain a where a: "for_each f ys s = Inr a" and r: "for_each f (x # zs) a = Inr s'"
    by (auto simp: for_each_append split: sum.splits)
  from r obtain b where b: "f x a = Inr b" and z: "for_each f zs b = Inr s'"
    by (auto split: sum.splits)
  have "R s a"
  proof (rule for_each_inv [OF a, where P = "R s"])
    show "R s s" by (rule refl)
  next
    fix y c d
    assume "y \<in> set ys" "R s c" "f y c = Inr d"
    then show "R s d" using other [of y c d] ky xs trans by auto
  qed
  moreover have "R b s'"
  proof (rule for_each_inv [OF z, where P = "R b"])
    show "R b b" by (rule refl)
  next
    fix y c d
    assume "y \<in> set zs" "R b c" "f y c = Inr d"
    then show "R b d" using other [of y c d] kz xs trans by auto
  qed
  ultimately show ?thesis using b by blast
qed

lemmas model_defs =
  update_settings_def set_logging_level_def get_effective_level_def
  log_info_def log_error_def log_debug_def delete_dispatcher_def drop_dispatcher_def
  create_dispatcher_def apply_dispatcher_runtime_def new_queue_def register_dispatcher_def
  dispatcher_set_def delete_listener_def drop_listener_def create_listener_def
  apply_listener_runtime_def register_listener_def listener_set_def listener_close_def
  publish_nodes_def dict_eq_def quoted_def Let_def

lemmas ex_defs =
  ex_env_def ex_logging_def ex_levels_def ex_hub_def ex_desc_def ex_settings_def ex_dispatcher_def ex_listener_def
  ex_d1_def ex_d2_def ex_d3_def ex_l1_def ex_l2_def ex_d1_moved_def ex_d1_bad_def
  ex_d2_bad_def ex_d1_untyped_def ex_l1_moved_def ex_tick_def

lemma set_logging_level_frame:
  assumes "set_logging_level lg l h = Inr hl"
  shows "nodelist hl = nodelist h \<and> dispatchers hl = dispatchers h \<and>
         listeners hl = listeners h \<and> queue hl = queue h \<and> next_oid hl = next_oid h \<and>
         exit_flag hl = exit_flag h \<and> released_dispatchers hl = released_dispatchers h \<and>
         released_listeners hl = released_listeners h"
  using assms
  by (auto simp: set_logging_level_def log_info_def log_error_def
        split: option.splits if_splits)

lemma tick_startD:
  "tick_start h h0 \<Longrightarrow>
     nodelist h0 = nodelist h \<and> dispatchers h0 = dispatchers h \<and>
     listeners h0 = listeners h \<and> queue h0 = queue h \<and> next_oid h0 = next_oid h \<and>
     exit_flag h0 = exit_flag h \<and> released_dispatchers h0 = released_dispatchers h \<and>
     released_listeners h0 = released_listeners h \<and> temp_buffer h0 = []"
  by (simp add: tick_start_def)

lemma update_settings_stages:
  assumes "update_settings e s h = Inr h'"
  obtains h0 h1 h2 h3 h4 where
    "tick_start h h0"
    "for_each (delete_dispatcher s) (map fst (dispatchers h)) h0 = Inr h1"
    "for_each (create_dispatcher (ehd e)) (s_dispatchers s) h1 = Inr h2"
    "for_each (delete_listener s) (map fst (listeners h2)) h2 = Inr h3"
    "for_each (create_listener (ehl e)) (s_listeners s) h3 = Inr h4"
    "h' = publish_nodes s h4"
proof -
  from assms obtain hl where hl: "set_logging_level (logging e) (hub_loglevel s) h = Inr hl"
    by (auto simp: update_settings_def split: sum.splits)
  let ?h0 = "hl\<lparr>temp_buffer := []\<rparr>"
  have t: "tick_start h ?h0"
    using set_logging_level_frame [OF hl] by (simp add: tick_start_def)
  then have d: "dispatchers ?h0 = dispatchers h" by (simp add: tick_start_def)
  from assms hl d obtain h1 h2 h3 h4 where
    "for_each (delete_dispatcher s) (map fst (dispatchers h)) ?h0 = Inr h1"
    "for_each (create_dispatcher (ehd e)) (s_dispatchers s) h1 = Inr h2"
    "for_each (delete_listener s) (map fst (listeners h2)) h2 = Inr h3"
    "for_each (create_listener (ehl e)) (s_listeners s) h3 = Inr h4"
    "h' = publish_nodes s h4"
    by (auto simp: update_settings_def Let_def split: sum.splits)
  with t that show ?thesis by blast
qed

lemma for_each_fails:
  assumes "x \<in> set xs"
    and "\<And>a. \<exists>e. f x a = Inl e"
    and "\<And>y a e. f y a = Inl e \<Longrightarrow> Q e"
  shows "\<exists>e. for_each f xs s = Inl e \<and> Q e"
  using assms(1)
proof (induction xs arbitrary: s)
  case Nil
  then show ?case by simp
next
  case (Cons y ys)
  show ?case
  proof (cases "f y s")
    case (Inl e)
    then show ?thesis using assms(3) by auto
  next
    case (Inr m)
    have "y \<noteq> x"
    proof
      assume "y = x"
      with assms(2) [of s] Inr show False by auto
    qed
    with Cons.prems have "x \<in> set ys" by simp
    from Cons.IH [OF this] show ?thesis using Inr by simp
  qed
qed

lemma delete_dispatcher_unlisted:
  "map_of (s_dispatchers s) n = None \<Longrightarrow> delete_dispatcher s n a = Inl (KeyError n)"
  by (simp add: delete_dispatcher_def split: option.splits)

lemma delete_dispatcher_raises: "delete_dispatcher s n a = Inl x \<Longrightarrow> \<exists>k. x = KeyError k"
  by (auto simp: delete_dispatcher_def split: option.splits if_splits)


section \<open>The two dispatcher loops, seen from one name\<close>

lemma d_agree_refl: "d_agree n a a"
  by (simp add: d_agree_def)

lemma d_agree_trans: "d_agree n a b \<Longrightarrow> d_agree n b c \<Longrightarrow> d_agree n a c"
  by (auto simp: d_agree_def)

lemma delete_dispatcher_other:
  "delete_dispatcher s x a = Inr b \<Longrightarrow> x \<noteq> n \<Longrightarrow> d_agree n a b"
  by (auto simp: delete_dispatcher_def drop_dispatcher_def log_info_def Let_def d_agree_def
        update_conv' delete_conv' split: option.splits if_splits)

lemma create_dispatcher_other:
  "create_dispatcher m x a = Inr b \<Longrightarrow> fst x \<noteq> n \<Longrightarrow> d_agree n a b"
  by (auto simp: create_dispatcher_def apply_dispatcher_runtime_def new_queue_def
        register_dispatcher_def log_info_def log_error_def Let_def d_agree_def
        update_conv' delete_conv' split: option.splits if_splits sum.splits)

lemma delete_listener_d_agree: "delete_listener s x a = Inr b \<Longrightarrow> d_agree n a b"
  by (auto simp: delete_listener_def drop_listener_def log_info_def Let_def d_agree_def
        split: option.splits if_splits)

lemma create_listener_d_agree: "create_listener m x a = Inr b \<Longrightarrow> d_agree n a b"
  by (auto simp: create_listener_def apply_listener_runtime_def
        register_listener_def log_info_def log_error_def Let_def d_agree_def
        split: option.splits if_splits sum.splits)

lemma delete_dispatcher_self:
  assumes "delete_dispatcher s n a = Inr b"
  obtains d dis where "map_of (dispatchers a) n = Some d"
    and "map_of (s_dispatchers s) n = Some dis"
    and "b = (if \<not> dict_eq (d_init_settings d) (init_settings dis)
              then drop_dispatcher n d
                     (if d_buffer d \<noteq> []
                      then a\<lparr>temp_buffer := AList.update n (d_buffer d) (temp_buffer a)\<rparr>
                      else a)
              else if dtype dis \<noteq> None then a else drop_dispatcher n d a)"
  using assms by (auto simp: delete_dispatcher_def split: option.splits if_splits)

lemma drop_dispatcher_effect:
  "map_of (dispatchers (drop_dispatcher n d a)) n = None \<and>
   d\<lparr>d_stop := True\<rparr> \<in> set (released_dispatchers (drop_dispatcher n d a)) \<and>
   map_of (temp_buffer (drop_dispatcher n d a)) n = map_of (temp_buffer a) n \<and>
   map_of (queue (drop_dispatcher n d a)) n = map_of (queue a) n \<and>
   next_oid (drop_dispatcher n d a) = next_oid a"
  by (simp add: drop_dispatcher_def log_info_def Let_def delete_conv')

lemma create_dispatcher_builds:
  assumes "create_dispatcher m (n, dis) a = Inr b"
    and "map_of (dispatchers a) n = None"
    and "dtype dis = Some t" and "m t = Some cls" and "cls n (init_settings dis) = Inr d0"
  shows "map_of (dispatchers b) n =
           Some (d0\<lparr>d_oid := Suc (next_oid a), d_init_settings := init_settings dis,
                    d_buffer := (case map_of (temp_buffer a) n of
                                   None \<Rightarrow> d_buffer d0 | Some x \<Rightarrow> x),
                    d_settings := runtime_settings dis\<rparr>)"
    and "map_of (queue b) n = Some \<lparr>q_oid = next_oid a, q_items = []\<rparr>"
    and "map_of (temp_buffer b) n = None"
  using assms
  by (auto simp: create_dispatcher_def apply_dispatcher_runtime_def new_queue_def
        register_dispatcher_def log_info_def dispatcher_set_def Let_def
        update_conv' delete_conv' split: option.splits)

lemma create_dispatcher_rejects:
  assumes "create_dispatcher m (n, dis) a = Inr b"
    and "map_of (dispatchers a) n = None"
    and "dtype dis = Some t" and "m t = Some cls" and "cls n (init_settings dis) = Inl x"
  shows "is_dispatcher_init_error x"
    and "map_of (dispatchers b) n = None"
    and "map_of (queue b) n = Some \<lparr>q_oid = next_oid a, q_items = []\<rparr>"
    and "map_of (temp_buffer b) n = map_of (temp_buffer a) n"
    and "(ERROR, ''Failed to create '' @ quoted n @ '' dispatcher: '' @ str_error x)
           \<in> set (hub_log b)"
  using assms
  by (auto simp: create_dispatcher_def new_queue_def log_info_def log_error_def Let_def
        update_conv' split: if_splits)

lemma create_dispatcher_untyped:
  assumes "create_dispatcher m (n, dis) a = Inr b"
    and "map_of (dispatchers a) n = None" and "dtype dis = None"
  shows "b = a"
  using assms by (simp add: create_dispatcher_def)

lemma create_dispatcher_resolves:
  assumes "create_dispatcher m (n, dis) a = Inr b"
    and "map_of (dispatchers a) n = None" and "dtype dis = Some t"
  shows "m t \<noteq> None"
  using assms by (auto simp: create_dispatcher_def Let_def split: option.splits)

lemma create_dispatcher_live:
  assumes "create_dispatcher m (n, dis) a = Inr b"
    and "map_of (dispatchers a) n = Some d"
  shows "map_of (dispatchers b) n = Some (d\<lparr>d_settings := runtime_settings dis\<rparr>)"
    and "queue b = queue a" and "temp_buffer b = temp_buffer a" and "next_oid b = next_oid a"
    and "hub_log b = hub_log a"
  using assms
  by (auto simp: create_dispatcher_def apply_dispatcher_runtime_def dispatcher_set_def
        update_conv')

lemma publish_nodes_d_agree: "d_agree n a (publish_nodes s a)"
  by (simp add: publish_nodes_def d_agree_def split: option.splits)

lemma update_settings_dispatcher_stages:
  assumes "update_settings e s h = Inr h'"
  obtains h0 h1 h2 where
    "dispatchers h0 = dispatchers h" and "temp_buffer h0 = []" and "next_oid h0 = next_oid h"
    and "queue h0 = queue h" and "released_dispatchers h0 = released_dispatchers h"
    and "for_each (delete_dispatcher s) (map fst (dispatchers h)) h0 = Inr h1"
    and "for_each (create_dispatcher (ehd e)) (s_dispatchers s) h1 = Inr h2"
    and "\<forall>n. d_agree n h2 h'"
proof -
  from assms obtain h0 h1 h2 h3 h4 where
    st0: "tick_start h h0"
    and st: "for_each (delete_dispatcher s) (map fst (dispatchers h)) h0 = Inr h1"
      "for_each (create_dispatcher (ehd e)) (s_dispatchers s) h1 = Inr h2"
      "for_each (delete_listener s) (map fst (listeners h2)) h2 = Inr h3"
      "for_each (create_listener (ehl e)) (s_listeners s) h3 = Inr h4"
      "h' = publish_nodes s h4"
    by (rule update_settings_stages)
  have a: "d_agree n h2 h3" for n
    by (rule for_each_inv [OF st(3), where P = "d_agree n h2"])
      (auto intro: d_agree_refl d_agree_trans delete_listener_d_agree)
  have b: "d_agree n h3 h4" for n
    by (rule for_each_inv [OF st(4), where P = "d_agree n h3"])
      (auto intro: d_agree_refl d_agree_trans create_listener_d_agree)
  have "d_agree n h2 h'" for n
    using a [of n] b [of n] publish_nodes_d_agree [of n h4 s] st(5)
    by (auto intro: d_agree_trans)
  then show ?thesis
    using st(1,2) that [of h0 h1 h2]
    by (simp add: tick_startD [OF st0])
qed

lemma delete_loop_at:
  assumes "for_each (delete_dispatcher s) ns h0 = Inr h1"
    and "distinct ns" and "n \<in> set ns"
  obtains a b where "d_agree n h0 a" and "delete_dispatcher s n a = Inr b" and "d_agree n b h1"
proof -
  have "\<exists>a b. d_agree n h0 a \<and> delete_dispatcher s n a = Inr b \<and> d_agree n b h1"
    by (rule for_each_local [OF assms(1), where key = "\<lambda>x. x"])
      (use assms(2,3) in \<open>auto intro: d_agree_refl d_agree_trans delete_dispatcher_other\<close>)
  then show ?thesis using that by blast
qed

lemma create_loop_at:
  assumes "for_each (create_dispatcher m) xs h1 = Inr h2"
    and "distinct (map fst xs)" and "(n, dis) \<in> set xs"
  obtains a b where "d_agree n h1 a" and "create_dispatcher m (n, dis) a = Inr b"
    and "d_agree n b h2"
proof -
  have "\<exists>a b. d_agree n h1 a \<and> create_dispatcher m (n, dis) a = Inr b \<and> d_agree n b h2"
    by (rule for_each_local [OF assms(1), where key = fst])
      (use assms(2,3) in \<open>auto intro: d_agree_refl d_agree_trans create_dispatcher_other\<close>)
  then show ?thesis using that by blast
qed


lemma live_key: "map_of xs n = Some v \<Longrightarrow> n \<in> set (map fst xs)"
  by (auto dest: map_of_SomeD intro: rev_image_eqI)

lemma delete_phase_listed:
  assumes "for_each (delete_dispatcher s) ns h0 = Inr h1" and "distinct ns" and "n \<in> set ns"
  shows "map_of (s_dispatchers s) n \<noteq> None"
proof -
  from delete_loop_at [OF assms] obtain a b where "delete_dispatcher s n a = Inr b" by blast
  then show ?thesis by (auto elim: delete_dispatcher_self)
qed

lemma delete_phase_retained:
  assumes loop: "for_each (delete_dispatcher s) ns h0 = Inr h1"
    and "distinct ns" and "n \<in> set ns"
    and live: "map_of (dispatchers h0) n = Some d"
    and desc: "map_of (s_dispatchers s) n = Some dis"
    and same: "dict_eq (d_init_settings d) (init_settings dis)" and typed: "dtype dis \<noteq> None"
  shows "d_agree n h0 h1"
proof -
  from delete_loop_at [OF assms(1-3)] obtain a b where
    ab: "d_agree n h0 a" "delete_dispatcher s n a = Inr b" "d_agree n b h1" .
  from ab(1) live have "map_of (dispatchers a) n = Some d" by (simp add: d_agree_def)
  with ab(2) desc same typed have "b = a" by (auto elim!: delete_dispatcher_self)
  with ab show ?thesis by (auto intro: d_agree_trans)
qed

lemma delete_phase_dropped:
  assumes loop: "for_each (delete_dispatcher s) ns h0 = Inr h1"
    and "distinct ns" and "n \<in> set ns"
    and live: "map_of (dispatchers h0) n = Some d"
    and desc: "map_of (s_dispatchers s) n = Some dis"
    and doomed: "\<not> dict_eq (d_init_settings d) (init_settings dis) \<or> dtype dis = None"
  shows "map_of (dispatchers h1) n = None"
    and "d\<lparr>d_stop := True\<rparr> \<in> set (released_dispatchers h1)"
    and "map_of (temp_buffer h1) n =
           (if \<not> dict_eq (d_init_settings d) (init_settings dis) \<and> d_buffer d \<noteq> []
            then Some (d_buffer d) else map_of (temp_buffer h0) n)"
    and "map_of (queue h1) n = map_of (queue h0) n"
    and "next_oid h0 \<le> next_oid h1"
proof -
  from delete_loop_at [OF assms(1-3)] obtain a b where
    ab: "d_agree n h0 a" "delete_dispatcher s n a = Inr b" "d_agree n b h1" .
  from ab(1) live have a: "map_of (dispatchers a) n = Some d" by (simp add: d_agree_def)
  let ?a = "if d_buffer d \<noteq> []
            then a\<lparr>temp_buffer := AList.update n (d_buffer d) (temp_buffer a)\<rparr> else a"
  from ab(2) a desc doomed
  have b: "b = drop_dispatcher n d (if \<not> dict_eq (d_init_settings d) (init_settings dis)
                                    then ?a else a)"
    by (auto elim!: delete_dispatcher_self)
  have "map_of (dispatchers b) n = None"
    and "d\<lparr>d_stop := True\<rparr> \<in> set (released_dispatchers b)"
    and "map_of (temp_buffer b) n =
           (if \<not> dict_eq (d_init_settings d) (init_settings dis) \<and> d_buffer d \<noteq> []
            then Some (d_buffer d) else map_of (temp_buffer a) n)"
    and "map_of (queue b) n = map_of (queue a) n" and "next_oid b = next_oid a"
    by (simp_all add: b drop_dispatcher_effect update_conv')
  with ab(1,3)
  show "map_of (dispatchers h1) n = None"
    and "d\<lparr>d_stop := True\<rparr> \<in> set (released_dispatchers h1)"
    and "map_of (temp_buffer h1) n =
           (if \<not> dict_eq (d_init_settings d) (init_settings dis) \<and> d_buffer d \<noteq> []
            then Some (d_buffer d) else map_of (temp_buffer h0) n)"
    and "map_of (queue h1) n = map_of (queue h0) n"
    and "next_oid h0 \<le> next_oid h1"
    by (auto simp: d_agree_def)
qed

lemma create_phase_unlisted:
  assumes "for_each (create_dispatcher m) xs h1 = Inr h2" and "n \<notin> fst ` set xs"
  shows "d_agree n h1 h2"
  by (rule for_each_inv [OF assms(1), where P = "d_agree n h1"])
    (use assms(2) in \<open>auto intro: d_agree_refl d_agree_trans create_dispatcher_other\<close>)

lemma create_phase_live:
  assumes "for_each (create_dispatcher m) xs h1 = Inr h2"
    and "distinct (map fst xs)" and "(n, dis) \<in> set xs"
    and "map_of (dispatchers h1) n = Some d"
  shows "map_of (dispatchers h2) n = Some (d\<lparr>d_settings := runtime_settings dis\<rparr>)"
    and "map_of (queue h2) n = map_of (queue h1) n"
proof -
  from create_loop_at [OF assms(1-3)] obtain a b where
    ab: "d_agree n h1 a" "create_dispatcher m (n, dis) a = Inr b" "d_agree n b h2" .
  from ab(1) assms(4) have "map_of (dispatchers a) n = Some d" by (simp add: d_agree_def)
  from create_dispatcher_live [OF ab(2) this] ab(1,3)
  show "map_of (dispatchers h2) n = Some (d\<lparr>d_settings := runtime_settings dis\<rparr>)"
    and "map_of (queue h2) n = map_of (queue h1) n"
    by (simp_all add: d_agree_def)
qed

lemma create_phase_untyped:
  assumes "for_each (create_dispatcher m) xs h1 = Inr h2"
    and "distinct (map fst xs)" and "(n, dis) \<in> set xs"
    and "map_of (dispatchers h1) n = None" and "dtype dis = None"
  shows "d_agree n h1 h2"
proof -
  from create_loop_at [OF assms(1-3)] obtain a b where
    ab: "d_agree n h1 a" "create_dispatcher m (n, dis) a = Inr b" "d_agree n b h2" .
  from ab(1) assms(4) have "map_of (dispatchers a) n = None" by (simp add: d_agree_def)
  from create_dispatcher_untyped [OF ab(2) this assms(5)] ab(1,3)
  show ?thesis by (auto intro: d_agree_trans)
qed

lemma create_phase_resolves:
  assumes "for_each (create_dispatcher m) xs h1 = Inr h2"
    and "distinct (map fst xs)" and "(n, dis) \<in> set xs"
    and "map_of (dispatchers h1) n = None" and "dtype dis = Some t"
  shows "m t \<noteq> None"
proof -
  from create_loop_at [OF assms(1-3)] obtain a b where
    ab: "d_agree n h1 a" "create_dispatcher m (n, dis) a = Inr b" "d_agree n b h2" .
  from ab(1) assms(4) have "map_of (dispatchers a) n = None" by (simp add: d_agree_def)
  from create_dispatcher_resolves [OF ab(2) this assms(5)] show ?thesis .
qed

lemma create_phase_builds:
  assumes "for_each (create_dispatcher m) xs h1 = Inr h2"
    and "distinct (map fst xs)" and "(n, dis) \<in> set xs"
    and "map_of (dispatchers h1) n = None"
    and "dtype dis = Some t" and "m t = Some cls" and "cls n (init_settings dis) = Inr d0"
  shows "\<exists>k \<ge> next_oid h1.
           map_of (dispatchers h2) n =
             Some (d0\<lparr>d_oid := Suc k, d_init_settings := init_settings dis,
                      d_buffer := (case map_of (temp_buffer h1) n of
                                     None \<Rightarrow> d_buffer d0 | Some x \<Rightarrow> x),
                      d_settings := runtime_settings dis\<rparr>) \<and>
           map_of (queue h2) n = Some \<lparr>q_oid = k, q_items = []\<rparr>"
proof -
  from create_loop_at [OF assms(1-3)] obtain a b where
    ab: "d_agree n h1 a" "create_dispatcher m (n, dis) a = Inr b" "d_agree n b h2" .
  from ab(1) assms(4) have a: "map_of (dispatchers a) n = None"
    "map_of (temp_buffer a) n = map_of (temp_buffer h1) n" "next_oid h1 \<le> next_oid a"
    by (simp_all add: d_agree_def)
  from create_dispatcher_builds [OF ab(2) a(1) assms(5-7)] a(2,3) ab(3)
  show ?thesis by (auto simp: d_agree_def)
qed

lemma create_phase_rejects:
  assumes "for_each (create_dispatcher m) xs h1 = Inr h2"
    and "distinct (map fst xs)" and "(n, dis) \<in> set xs"
    and "map_of (dispatchers h1) n = None"
    and "dtype dis = Some t" and "m t = Some cls" and "cls n (init_settings dis) = Inl x"
  shows "is_dispatcher_init_error x"
    and "map_of (dispatchers h2) n = None"
    and "\<exists>k \<ge> next_oid h1. map_of (queue h2) n = Some \<lparr>q_oid = k, q_items = []\<rparr>"
    and "map_of (temp_buffer h2) n = map_of (temp_buffer h1) n"
    and "(ERROR, ''Failed to create '' @ quoted n @ '' dispatcher: '' @ str_error x)
           \<in> set (hub_log h2)"
proof -
  from create_loop_at [OF assms(1-3)] obtain a b where
    ab: "d_agree n h1 a" "create_dispatcher m (n, dis) a = Inr b" "d_agree n b h2" .
  from ab(1) assms(4) have a: "map_of (dispatchers a) n = None"
    "map_of (temp_buffer a) n = map_of (temp_buffer h1) n" "next_oid h1 \<le> next_oid a"
    by (simp_all add: d_agree_def)
  note r = create_dispatcher_rejects [OF ab(2) a(1) assms(5-7)]
  from r(1) show "is_dispatcher_init_error x" .
  from r(2) ab(3) show "map_of (dispatchers h2) n = None" by (simp add: d_agree_def)
  from r(3) ab(3) a(3)
  show "\<exists>k \<ge> next_oid h1. map_of (queue h2) n = Some \<lparr>q_oid = k, q_items = []\<rparr>"
    by (auto simp: d_agree_def)
  from r(4) ab(3) a(2) show "map_of (temp_buffer h2) n = map_of (temp_buffer h1) n"
    by (simp add: d_agree_def)
  from r(5) ab(3)
  show "(ERROR, ''Failed to create '' @ quoted n @ '' dispatcher: '' @ str_error x)
           \<in> set (hub_log h2)"
    by (auto simp: d_agree_def)
qed


section \<open>The two listener loops, seen from one name\<close>

lemma l_agree_refl: "l_agree n a a"
  by (simp add: l_agree_def)

lemma l_agree_trans: "l_agree n a b \<Longrightarrow> l_agree n b c \<Longrightarrow> l_agree n a c"
  by (auto simp: l_agree_def)

lemma delete_listener_other:
  "delete_listener s x a = Inr b \<Longrightarrow> x \<noteq> n \<Longrightarrow> l_agree n a b"
  by (auto simp: delete_listener_def drop_listener_def log_info_def Let_def l_agree_def
        delete_conv' split: option.splits if_splits)

lemma create_listener_other:
  "create_listener m x a = Inr b \<Longrightarrow> fst x \<noteq> n \<Longrightarrow> l_agree n a b"
  by (auto simp: create_listener_def apply_listener_runtime_def
        register_listener_def log_info_def log_error_def Let_def l_agree_def
        update_conv' split: option.splits if_splits sum.splits)

lemma delete_dispatcher_l_agree: "delete_dispatcher s x a = Inr b \<Longrightarrow> l_agree n a b"
  by (auto simp: delete_dispatcher_def drop_dispatcher_def log_info_def Let_def l_agree_def
        split: option.splits if_splits)

lemma create_dispatcher_l_agree: "create_dispatcher m x a = Inr b \<Longrightarrow> l_agree n a b"
  by (auto simp: create_dispatcher_def apply_dispatcher_runtime_def new_queue_def
        register_dispatcher_def log_info_def log_error_def Let_def l_agree_def
        split: option.splits if_splits sum.splits)

lemma delete_listener_self:
  assumes "delete_listener s n a = Inr b"
  obtains l lis where "map_of (listeners a) n = Some l"
    and "map_of (s_listeners s) n = Some lis"
    and "b = (if dict_eq (l_init_settings l) (init_settings lis) \<and> dtype lis \<noteq> None
              then a else drop_listener n l a)"
  using assms by (auto simp: delete_listener_def split: option.splits if_splits)

lemma drop_listener_effect:
  "map_of (listeners (drop_listener n l a)) n = None \<and>
   listener_close l \<in> set (released_listeners (drop_listener n l a)) \<and>
   next_oid (drop_listener n l a) = next_oid a"
  by (simp add: drop_listener_def log_info_def Let_def delete_conv')

lemma create_listener_absent:
  assumes "create_listener m (n, lis) a = Inr b" and "map_of (listeners a) n = None"
  shows "map_of (listeners b) n =
           map_option (\<lambda>l0. l0\<lparr>l_oid := next_oid a, l_init_settings := init_settings lis,
                                l_name := Some n, l_settings := runtime_settings lis\<rparr>)
             (construct_listener m lis)"
  using assms
  by (auto simp: create_listener_def apply_listener_runtime_def register_listener_def
        log_info_def log_error_def listener_set_def Let_def construct_listener_def
        update_conv' split: option.splits sum.splits if_splits)

lemma create_listener_live:
  assumes "create_listener m (n, lis) a = Inr b" and "map_of (listeners a) n = Some l"
  shows "map_of (listeners b) n = Some (l\<lparr>l_settings := runtime_settings lis\<rparr>)"
    and "next_oid b = next_oid a"
  using assms
  by (auto simp: create_listener_def apply_listener_runtime_def listener_set_def update_conv')

lemma update_settings_listener_stages:
  assumes "update_settings e s h = Inr h'"
  obtains h2 h3 h4 where
    "listeners h2 = listeners h" and "released_listeners h2 = released_listeners h"
    and "next_oid h \<le> next_oid h2"
    and "for_each (delete_listener s) (map fst (listeners h)) h2 = Inr h3"
    and "for_each (create_listener (ehl e)) (s_listeners s) h3 = Inr h4"
    and "listeners h' = listeners h4" and "released_listeners h' = released_listeners h4"
proof -
  from assms obtain h0 h1 h2 h3 h4 where
    st0: "tick_start h h0"
    and st: "for_each (delete_dispatcher s) (map fst (dispatchers h)) h0 = Inr h1"
      "for_each (create_dispatcher (ehd e)) (s_dispatchers s) h1 = Inr h2"
      "for_each (delete_listener s) (map fst (listeners h2)) h2 = Inr h3"
      "for_each (create_listener (ehl e)) (s_listeners s) h3 = Inr h4"
      "h' = publish_nodes s h4"
    by (rule update_settings_stages)
  let ?P = "\<lambda>a. listeners a = listeners h \<and> released_listeners a = released_listeners h
              \<and> next_oid h \<le> next_oid a"
  have "?P h1"
    by (rule for_each_inv [OF st(1), where P = ?P])
      (auto simp: tick_startD [OF st0] dest: delete_dispatcher_frame)
  then have "?P h2"
    by (rule for_each_inv [OF st(2), where P = ?P]) (auto dest: create_dispatcher_frame)
  moreover have "listeners h' = listeners h4" "released_listeners h' = released_listeners h4"
    using st(5) by (simp_all add: publish_nodes_def split: option.splits)
  ultimately show ?thesis using st(3,4) that [of h2 h3 h4] by simp
qed

lemma delete_listener_loop_at:
  assumes "for_each (delete_listener s) ns h0 = Inr h1"
    and "distinct ns" and "n \<in> set ns"
  obtains a b where "l_agree n h0 a" and "delete_listener s n a = Inr b" and "l_agree n b h1"
proof -
  have "\<exists>a b. l_agree n h0 a \<and> delete_listener s n a = Inr b \<and> l_agree n b h1"
    by (rule for_each_local [OF assms(1), where key = "\<lambda>x. x"])
      (use assms(2,3) in \<open>auto intro: l_agree_refl l_agree_trans delete_listener_other\<close>)
  then show ?thesis using that by blast
qed

lemma create_listener_loop_at:
  assumes "for_each (create_listener m) xs h1 = Inr h2"
    and "distinct (map fst xs)" and "(n, lis) \<in> set xs"
  obtains a b where "l_agree n h1 a" and "create_listener m (n, lis) a = Inr b"
    and "l_agree n b h2"
proof -
  have "\<exists>a b. l_agree n h1 a \<and> create_listener m (n, lis) a = Inr b \<and> l_agree n b h2"
    by (rule for_each_local [OF assms(1), where key = fst])
      (use assms(2,3) in \<open>auto intro: l_agree_refl l_agree_trans create_listener_other\<close>)
  then show ?thesis using that by blast
qed

lemma listener_delete_phase_dropped:
  assumes loop: "for_each (delete_listener s) ns h0 = Inr h1"
    and "distinct ns" and "n \<in> set ns"
    and live: "map_of (listeners h0) n = Some l"
    and desc: "map_of (s_listeners s) n = Some lis"
    and doomed: "\<not> dict_eq (l_init_settings l) (init_settings lis) \<or> dtype lis = None"
  shows "map_of (listeners h1) n = None"
    and "listener_close l \<in> set (released_listeners h1)"
    and "next_oid h0 \<le> next_oid h1"
proof -
  from delete_listener_loop_at [OF assms(1-3)] obtain a b where
    ab: "l_agree n h0 a" "delete_listener s n a = Inr b" "l_agree n b h1" .
  from ab(1) live have a: "map_of (listeners a) n = Some l" by (simp add: l_agree_def)
  from ab(2) a desc doomed have b: "b = drop_listener n l a"
    by (auto elim!: delete_listener_self)
  have "map_of (listeners b) n = None" "listener_close l \<in> set (released_listeners b)"
    "next_oid b = next_oid a"
    by (simp_all add: b drop_listener_effect)
  with ab(1,3)
  show "map_of (listeners h1) n = None"
    and "listener_close l \<in> set (released_listeners h1)"
    and "next_oid h0 \<le> next_oid h1"
    by (auto simp: l_agree_def)
qed

lemma listener_delete_phase_retained:
  assumes loop: "for_each (delete_listener s) ns h0 = Inr h1"
    and "distinct ns" and "n \<in> set ns"
    and live: "map_of (listeners h0) n = Some l"
    and desc: "map_of (s_listeners s) n = Some lis"
    and same: "dict_eq (l_init_settings l) (init_settings lis)" and typed: "dtype lis \<noteq> None"
  shows "l_agree n h0 h1"
proof -
  from delete_listener_loop_at [OF assms(1-3)] obtain a b where
    ab: "l_agree n h0 a" "delete_listener s n a = Inr b" "l_agree n b h1" .
  from ab(1) live have "map_of (listeners a) n = Some l" by (simp add: l_agree_def)
  with ab(2) desc same typed have "b = a" by (auto elim!: delete_listener_self)
  with ab show ?thesis by (auto intro: l_agree_trans)
qed

lemma listener_create_phase_absent:
  assumes "for_each (create_listener m) xs h1 = Inr h2"
    and "distinct (map fst xs)" and "(n, lis) \<in> set xs"
    and "map_of (listeners h1) n = None"
  shows "\<exists>k \<ge> next_oid h1.
           map_of (listeners h2) n =
             map_option (\<lambda>l0. l0\<lparr>l_oid := k, l_init_settings := init_settings lis,
                                  l_name := Some n, l_settings := runtime_settings lis\<rparr>)
               (construct_listener m lis)"
proof -
  from create_listener_loop_at [OF assms(1-3)] obtain a b where
    ab: "l_agree n h1 a" "create_listener m (n, lis) a = Inr b" "l_agree n b h2" .
  from ab(1) assms(4) have a: "map_of (listeners a) n = None" "next_oid h1 \<le> next_oid a"
    by (simp_all add: l_agree_def)
  from create_listener_absent [OF ab(2) a(1)] a(2) ab(3)
  show ?thesis by (auto simp: l_agree_def)
qed

lemma listener_create_phase_live:
  assumes "for_each (create_listener m) xs h1 = Inr h2"
    and "distinct (map fst xs)" and "(n, lis) \<in> set xs"
    and "map_of (listeners h1) n = Some l"
  shows "map_of (listeners h2) n = Some (l\<lparr>l_settings := runtime_settings lis\<rparr>)"
proof -
  from create_listener_loop_at [OF assms(1-3)] obtain a b where
    ab: "l_agree n h1 a" "create_listener m (n, lis) a = Inr b" "l_agree n b h2" .
  from ab(1) assms(4) have "map_of (listeners a) n = Some l" by (simp add: l_agree_def)
  from create_listener_live(1) [OF ab(2) this] ab(3)
  show ?thesis by (simp add: l_agree_def)
qed


section \<open>When a tick returns, and which dispatchers are live after it\<close>

lemma delete_dispatcher_returns:
  "map_of (dispatchers a) n \<noteq> None \<Longrightarrow> map_of (s_dispatchers s) n \<noteq> None
     \<Longrightarrow> \<exists>b. delete_dispatcher s n a = Inr b"
  by (auto simp: delete_dispatcher_def)

lemma delete_listener_returns:
  "map_of (listeners a) n \<noteq> None \<Longrightarrow> map_of (s_listeners s) n \<noteq> None
     \<Longrightarrow> \<exists>b. delete_listener s n a = Inr b"
  by (auto simp: delete_listener_def)

lemma delete_dispatchers_return:
  assumes "distinct ns"
    and "\<forall>n \<in> set ns. map_of (dispatchers h0) n \<noteq> None \<and> map_of (s_dispatchers s) n \<noteq> None"
  shows "\<exists>h1. for_each (delete_dispatcher s) ns h0 = Inr h1"
  using assms
proof (induction ns arbitrary: h0)
  case Nil
  then show ?case by simp
next
  case (Cons x xs)
  from Cons.prems(2) obtain m where m: "delete_dispatcher s x h0 = Inr m"
    using delete_dispatcher_returns [of h0 x s] by auto
  have "\<forall>n \<in> set xs. map_of (dispatchers m) n \<noteq> None \<and> map_of (s_dispatchers s) n \<noteq> None"
  proof
    fix n assume n: "n \<in> set xs"
    with Cons.prems(1) have "x \<noteq> n" by auto
    from delete_dispatcher_other [OF m this] Cons.prems(2) n
    show "map_of (dispatchers m) n \<noteq> None \<and> map_of (s_dispatchers s) n \<noteq> None"
      by (simp add: d_agree_def)
  qed
  with Cons.IH [of m] Cons.prems(1) m show ?case by simp
qed

lemma delete_listeners_return:
  assumes "distinct ns"
    and "\<forall>n \<in> set ns. map_of (listeners h0) n \<noteq> None \<and> map_of (s_listeners s) n \<noteq> None"
  shows "\<exists>h1. for_each (delete_listener s) ns h0 = Inr h1"
  using assms
proof (induction ns arbitrary: h0)
  case Nil
  then show ?case by simp
next
  case (Cons x xs)
  from Cons.prems(2) obtain m where m: "delete_listener s x h0 = Inr m"
    using delete_listener_returns [of h0 x s] by auto
  have "\<forall>n \<in> set xs. map_of (listeners m) n \<noteq> None \<and> map_of (s_listeners s) n \<noteq> None"
  proof
    fix n assume n: "n \<in> set xs"
    with Cons.prems(1) have "x \<noteq> n" by auto
    from delete_listener_other [OF m this] Cons.prems(2) n
    show "map_of (listeners m) n \<noteq> None \<and> map_of (s_listeners s) n \<noteq> None"
      by (simp add: l_agree_def)
  qed
  with Cons.IH [of m] Cons.prems(1) m show ?case by simp
qed

lemma create_dispatcher_returns:
  "dispatcher_settles m nd \<Longrightarrow> \<exists>b. create_dispatcher m nd a = Inr b"
  by (auto simp: dispatcher_settles_def create_dispatcher_def apply_dispatcher_runtime_def
        register_dispatcher_def new_queue_def log_info_def Let_def update_conv'
        split: option.splits sum.splits)

lemma create_listener_returns:
  "listener_settles m nl \<Longrightarrow> \<exists>b. create_listener m nl a = Inr b"
  by (auto simp: listener_settles_def create_listener_def apply_listener_runtime_def
        register_listener_def log_info_def Let_def update_conv'
        split: option.splits sum.splits)

lemma create_dispatchers_return:
  assumes "list_all (dispatcher_settles m) xs"
  shows "\<exists>h2. for_each (create_dispatcher m) xs h1 = Inr h2"
proof -
  have "\<exists>h2. for_each (create_dispatcher m) xs h1 = Inr h2 \<and> True"
    by (rule for_each_returns)
      (use assms in \<open>auto simp: list_all_iff dest: create_dispatcher_returns\<close>)
  then show ?thesis by simp
qed

lemma create_listeners_return:
  assumes "list_all (listener_settles m) xs"
  shows "\<exists>h2. for_each (create_listener m) xs h1 = Inr h2"
proof -
  have "\<exists>h2. for_each (create_listener m) xs h1 = Inr h2 \<and> True"
    by (rule for_each_returns)
      (use assms in \<open>auto simp: list_all_iff dest: create_listener_returns\<close>)
  then show ?thesis by simp
qed

lemma key_listed: "n \<in> set (map fst xs) \<Longrightarrow> map_of xs n \<noteq> None"
  by (simp add: map_of_eq_None_iff)

lemma update_settings_returns:
  assumes dist: "distinct (map fst (dispatchers h))" "distinct (map fst (listeners h))"
    and listed: "set (map fst (dispatchers h)) \<subseteq> set (map fst (s_dispatchers s))"
      "set (map fst (listeners h)) \<subseteq> set (map fst (s_listeners s))"
    and settle: "list_all (dispatcher_settles (ehd e)) (s_dispatchers s)"
      "list_all (listener_settles (ehl e)) (s_listeners s)"
    and level: "\<not> isl (set_logging_level (logging e) (hub_loglevel s) h)"
  shows "\<exists>h'. update_settings e s h = Inr h'"
proof -
  from level obtain hl where hl: "set_logging_level (logging e) (hub_loglevel s) h = Inr hl"
    by (cases "set_logging_level (logging e) (hub_loglevel s) h") auto
  let ?h0 = "hl\<lparr>temp_buffer := []\<rparr>"
  have d0: "dispatchers ?h0 = dispatchers h" "listeners ?h0 = listeners h"
    using set_logging_level_frame [OF hl] by simp_all
  have "\<forall>n \<in> set (map fst (dispatchers h)).
          map_of (dispatchers ?h0) n \<noteq> None \<and> map_of (s_dispatchers s) n \<noteq> None"
  proof (intro ballI conjI)
    fix n assume n: "n \<in> set (map fst (dispatchers h))"
    show "map_of (dispatchers ?h0) n \<noteq> None" using key_listed [OF n] d0 by simp
    from n listed(1) have "n \<in> set (map fst (s_dispatchers s))" by blast
    then show "map_of (s_dispatchers s) n \<noteq> None" by (rule key_listed)
  qed
  from delete_dispatchers_return [OF dist(1) this]
  obtain h1 where h1: "for_each (delete_dispatcher s) (map fst (dispatchers ?h0)) ?h0 = Inr h1"
    using d0 by auto
  from create_dispatchers_return [OF settle(1)]
  obtain h2 where h2: "for_each (create_dispatcher (ehd e)) (s_dispatchers s) h1 = Inr h2"
    by blast
  have "listeners h1 = listeners h"
    by (rule for_each_inv [OF h1]) (auto simp: d0 dest: delete_dispatcher_frame)
  moreover have "listeners h2 = listeners h1"
    by (rule for_each_inv [OF h2]) (auto dest: create_dispatcher_frame)
  ultimately have l2: "listeners h2 = listeners h" by simp
  have "\<forall>n \<in> set (map fst (listeners h2)).
          map_of (listeners h2) n \<noteq> None \<and> map_of (s_listeners s) n \<noteq> None"
  proof (intro ballI conjI)
    fix n assume n: "n \<in> set (map fst (listeners h2))"
    show "map_of (listeners h2) n \<noteq> None" using key_listed [OF n] by simp
    from n listed(2) l2 have "n \<in> set (map fst (s_listeners s))" by auto
    then show "map_of (s_listeners s) n \<noteq> None" by (rule key_listed)
  qed
  from delete_listeners_return [OF _ this] dist(2) l2
  obtain h3 where h3: "for_each (delete_listener s) (map fst (listeners h2)) h2 = Inr h3"
    by auto
  from create_listeners_return [OF settle(2)]
  obtain h4 where h4: "for_each (create_listener (ehl e)) (s_listeners s) h3 = Inr h4"
    by blast
  from hl h1 h2 h3 h4 show ?thesis
    by (simp add: update_settings_def Let_def)
qed

lemma delete_phase_absent:
  assumes "for_each (delete_dispatcher s) ns h0 = Inr h1" and "map_of (dispatchers h0) n = None"
  shows "map_of (dispatchers h1) n = None"
proof (rule for_each_inv [OF assms(1), where P = "\<lambda>a. map_of (dispatchers a) n = None"])
  show "map_of (dispatchers h0) n = None" by (rule assms(2))
next
  fix x a b
  assume "map_of (dispatchers a) n = None" "delete_dispatcher s x a = Inr b"
  then show "map_of (dispatchers b) n = None"
  proof (cases "x = n")
    case True
    assume "map_of (dispatchers a) n = None" "delete_dispatcher s x a = Inr b"
    with True show ?thesis by (simp add: delete_dispatcher_def)
  next
    case False
    assume "map_of (dispatchers a) n = None" "delete_dispatcher s x a = Inr b"
    with delete_dispatcher_other [OF _ False, of s a b] show ?thesis
      by (simp add: d_agree_def)
  qed
qed

lemma not_retained_absent:
  assumes del: "for_each (delete_dispatcher s) (map fst (dispatchers h)) h0 = Inr h1"
    and h0: "dispatchers h0 = dispatchers h"
    and dist: "distinct (map fst (dispatchers h))"
    and nr: "\<not> retains_dispatcher s h n"
  shows "map_of (dispatchers h1) n = None"
proof (cases "map_of (dispatchers h) n")
  case None
  with h0 delete_phase_absent [OF del] show ?thesis by simp
next
  case (Some d)
  from delete_phase_listed [OF del dist live_key [OF Some]]
  obtain dis where dis: "map_of (s_dispatchers s) n = Some dis" by auto
  with nr Some
  have "\<not> dict_eq (d_init_settings d) (init_settings dis) \<or> dtype dis = None"
    by (auto simp: retains_dispatcher_def)
  from delete_phase_dropped(1) [OF del dist live_key [OF Some] _ dis this] Some h0
  show ?thesis by simp
qed

lemma retained_kept:
  assumes del: "for_each (delete_dispatcher s) (map fst (dispatchers h)) h0 = Inr h1"
    and h0: "dispatchers h0 = dispatchers h"
    and dist: "distinct (map fst (dispatchers h))"
    and r: "retains_dispatcher s h n"
  shows "map_of (dispatchers h1) n = map_of (dispatchers h) n"
    and "map_of (dispatchers h) n \<noteq> None" and "map_of (s_dispatchers s) n \<noteq> None"
proof -
  from r obtain d dis where d: "map_of (dispatchers h) n = Some d"
    and dis: "map_of (s_dispatchers s) n = Some dis"
    and same: "dict_eq (d_init_settings d) (init_settings dis)" "dtype dis \<noteq> None"
    by (auto simp: retains_dispatcher_def split: option.splits)
  from delete_phase_retained [OF del dist live_key [OF d] _ dis same] d h0
  show "map_of (dispatchers h1) n = map_of (dispatchers h) n" by (simp add: d_agree_def)
  from d show "map_of (dispatchers h) n \<noteq> None" by simp
  from dis show "map_of (s_dispatchers s) n \<noteq> None" by simp
qed

lemma create_dispatcher_absent:
  assumes "create_dispatcher m (n, dis) a = Inr b" and "map_of (dispatchers a) n = None"
  shows "map_of (dispatchers b) n \<noteq> None \<longleftrightarrow> construct_dispatcher m n dis \<noteq> None"
  using assms
  by (auto simp: create_dispatcher_def apply_dispatcher_runtime_def register_dispatcher_def
        new_queue_def log_info_def log_error_def Let_def construct_dispatcher_def
        update_conv' split: option.splits sum.splits if_splits)

lemma create_phase_absent:
  assumes "for_each (create_dispatcher m) xs h1 = Inr h2"
    and "distinct (map fst xs)" and "(n, dis) \<in> set xs"
    and "map_of (dispatchers h1) n = None"
  shows "map_of (dispatchers h2) n \<noteq> None \<longleftrightarrow> construct_dispatcher m n dis \<noteq> None"
proof -
  from create_loop_at [OF assms(1-3)] obtain a b where
    ab: "d_agree n h1 a" "create_dispatcher m (n, dis) a = Inr b" "d_agree n b h2" .
  from ab(1) assms(4) have "map_of (dispatchers a) n = None" by (simp add: d_agree_def)
  from create_dispatcher_absent [OF ab(2) this] ab(3) show ?thesis
    by (simp add: d_agree_def)
qed

lemma dispatcher_live_after:
  assumes tick: "update_settings e s h = Inr h'"
    and dist: "distinct (map fst (dispatchers h))" "distinct (map fst (s_dispatchers s))"
  shows "map_of (dispatchers h') n \<noteq> None \<longleftrightarrow>
           retains_dispatcher s h n \<or>
           (case map_of (s_dispatchers s) n of
              None \<Rightarrow> False
            | Some dis \<Rightarrow> construct_dispatcher (ehd e) n dis \<noteq> None)"
proof -
  from tick obtain h0 h1 h2 where
    h0: "dispatchers h0 = dispatchers h" "temp_buffer h0 = []" "next_oid h0 = next_oid h"
      "queue h0 = queue h" "released_dispatchers h0 = released_dispatchers h"
    and del: "for_each (delete_dispatcher s) (map fst (dispatchers h)) h0 = Inr h1"
    and cre: "for_each (create_dispatcher (ehd e)) (s_dispatchers s) h1 = Inr h2"
    and rest: "\<forall>n. d_agree n h2 h'"
    by (rule update_settings_dispatcher_stages)
  from rest have h': "map_of (dispatchers h') n = map_of (dispatchers h2) n"
    by (simp add: d_agree_def)
  show ?thesis
  proof (cases "retains_dispatcher s h n")
    case True
    note k = retained_kept [OF del h0(1) dist(1) True]
    from k(2,3) obtain d dis where d: "map_of (dispatchers h) n = Some d"
      and dis: "map_of (s_dispatchers s) n = Some dis" by auto
    from create_phase_live(1) [OF cre dist(2) map_of_SomeD [OF dis]] k(1) d
    have "map_of (dispatchers h2) n \<noteq> None" by simp
    with True h' show ?thesis by simp
  next
    case False
    note absent = not_retained_absent [OF del h0(1) dist(1) False]
    show ?thesis
    proof (cases "map_of (s_dispatchers s) n")
      case None
      then have "n \<notin> fst ` set (s_dispatchers s)" by (simp add: map_of_eq_None_iff)
      from create_phase_unlisted [OF cre this] absent have "map_of (dispatchers h2) n = None"
        by (simp add: d_agree_def)
      with None False h' show ?thesis by simp
    next
      case (Some dis)
      from create_phase_absent [OF cre dist(2) map_of_SomeD [OF Some] absent] Some False h'
      show ?thesis by simp
    qed
  qed
qed

lemma delete_dispatcher_distinct:
  "delete_dispatcher s x a = Inr b \<Longrightarrow> distinct (map fst (dispatchers a))
     \<Longrightarrow> distinct (map fst (dispatchers b))"
  by (auto simp: delete_dispatcher_def drop_dispatcher_def log_info_def Let_def
        distinct_delete split: option.splits if_splits)

lemma create_dispatcher_distinct:
  "create_dispatcher m x a = Inr b \<Longrightarrow> distinct (map fst (dispatchers a))
     \<Longrightarrow> distinct (map fst (dispatchers b))"
  by (auto simp: create_dispatcher_def apply_dispatcher_runtime_def new_queue_def
        register_dispatcher_def log_info_def log_error_def Let_def distinct_update
        split: option.splits if_splits sum.splits)

lemma update_settings_distinct_dispatchers:
  assumes "update_settings e s h = Inr h'" and "distinct (map fst (dispatchers h))"
  shows "distinct (map fst (dispatchers h'))"
proof -
  from assms(1) obtain h0 h1 h2 h3 h4 where
    st0: "tick_start h h0"
    and st: "for_each (delete_dispatcher s) (map fst (dispatchers h)) h0 = Inr h1"
      "for_each (create_dispatcher (ehd e)) (s_dispatchers s) h1 = Inr h2"
      "for_each (delete_listener s) (map fst (listeners h2)) h2 = Inr h3"
      "for_each (create_listener (ehl e)) (s_listeners s) h3 = Inr h4"
      "h' = publish_nodes s h4"
    by (rule update_settings_stages)
  let ?P = "\<lambda>a. distinct (map fst (dispatchers a))"
  have "?P h1"
    by (rule for_each_inv [OF st(1), where P = ?P])
      (use assms(2) in \<open>auto simp: tick_startD [OF st0] dest: delete_dispatcher_distinct\<close>)
  then have "?P h2"
    by (rule for_each_inv [OF st(2), where P = ?P]) (auto dest: create_dispatcher_distinct)
  then have "?P h3"
    by (rule for_each_inv [OF st(3), where P = ?P]) (auto dest: delete_listener_frame)
  then have "?P h4"
    by (rule for_each_inv [OF st(4), where P = ?P]) (auto dest: create_listener_frame)
  with st(5) show ?thesis by (simp add: publish_nodes_def split: option.splits)
qed

lemma dispatcher_rejection_SomeD:
  assumes "dispatcher_rejection m (n, dis) = Some x"
  obtains t cls where "dtype dis = Some t" and "m t = Some cls"
    and "cls n (init_settings dis) = Inl x" and "is_dispatcher_init_error x"
  using assms
  by (auto simp: dispatcher_rejection_def split: option.splits sum.splits if_splits)

lemma rejected_dispatcher_after:
  assumes tick: "update_settings e s h = Inr h'"
    and dist: "distinct (map fst (dispatchers h))" "distinct (map fst (s_dispatchers s))"
    and mem: "(n, dis) \<in> set (s_dispatchers s)"
    and rej: "dispatcher_rejection (ehd e) (n, dis) = Some x"
    and nr: "\<not> retains_dispatcher s h n"
  shows "map_of (dispatchers h') n = None"
    and "\<exists>k \<ge> next_oid h. map_of (queue h') n = Some \<lparr>q_oid = k, q_items = []\<rparr>"
    and "(ERROR, ''Failed to create '' @ quoted n @ '' dispatcher: '' @ str_error x)
           \<in> set (hub_log h')"
proof -
  from tick obtain h0 h1 h2 where
    h0: "dispatchers h0 = dispatchers h" "temp_buffer h0 = []" "next_oid h0 = next_oid h"
      "queue h0 = queue h" "released_dispatchers h0 = released_dispatchers h"
    and del: "for_each (delete_dispatcher s) (map fst (dispatchers h)) h0 = Inr h1"
    and cre: "for_each (create_dispatcher (ehd e)) (s_dispatchers s) h1 = Inr h2"
    and rest: "\<forall>n. d_agree n h2 h'"
    by (rule update_settings_dispatcher_stages)
  from rest have h': "d_agree n h2 h'" by simp
  note absent = not_retained_absent [OF del h0(1) dist(1) nr]
  have "next_oid h1 = next_oid h"
    by (rule for_each_inv [OF del]) (auto simp: h0 dest: delete_dispatcher_frame)
  moreover from rej obtain t cls where c: "dtype dis = Some t" "ehd e t = Some cls"
    "cls n (init_settings dis) = Inl x"
    by (rule dispatcher_rejection_SomeD)
  note r = create_phase_rejects [OF cre dist(2) mem absent c]
  ultimately show "map_of (dispatchers h') n = None"
    and "\<exists>k \<ge> next_oid h. map_of (queue h') n = Some \<lparr>q_oid = k, q_items = []\<rparr>"
    and "(ERROR, ''Failed to create '' @ quoted n @ '' dispatcher: '' @ str_error x)
           \<in> set (hub_log h')"
    using r(2,3,5) h' by (auto simp: d_agree_def)
qed

lemma startup_live_count:
  assumes tick: "update_settings e s h = Inr h'"
    and empty: "dispatchers h = []"
    and dist: "distinct (map fst (s_dispatchers s))"
  shows "length (dispatchers h') = length (filter (dispatcher_built (ehd e)) (s_dispatchers s))"
proof -
  let ?xs = "s_dispatchers s"
  let ?ys = "filter (dispatcher_built (ehd e)) ?xs"
  from empty have d0: "distinct (map fst (dispatchers h))" by simp
  have nr: "\<not> retains_dispatcher s h n" for n
    by (simp add: retains_dispatcher_def empty)
  have "set (map fst (dispatchers h')) = set (map fst ?ys)"
  proof (rule set_eqI)
    fix n
    have "n \<in> set (map fst (dispatchers h')) \<longleftrightarrow> map_of (dispatchers h') n \<noteq> None"
      by (simp add: map_of_eq_None_iff)
    also have "\<dots> \<longleftrightarrow> (case map_of ?xs n of None \<Rightarrow> False
                              | Some dis \<Rightarrow> construct_dispatcher (ehd e) n dis \<noteq> None)"
      using dispatcher_live_after [OF tick d0 dist, of n] nr by simp
    also have "\<dots> \<longleftrightarrow> n \<in> set (map fst ?ys)"
    proof
      assume "case map_of ?xs n of None \<Rightarrow> False
              | Some dis \<Rightarrow> construct_dispatcher (ehd e) n dis \<noteq> None"
      then obtain dis where "map_of ?xs n = Some dis"
        "construct_dispatcher (ehd e) n dis \<noteq> None"
        by (auto split: option.splits)
      then have "(n, dis) \<in> set ?ys"
        by (auto simp: dispatcher_built_def dest: map_of_SomeD)
      then show "n \<in> set (map fst ?ys)" by (auto intro: rev_image_eqI)
    next
      assume "n \<in> set (map fst ?ys)"
      then obtain dis where "(n, dis) \<in> set ?xs" "dispatcher_built (ehd e) (n, dis)"
        by auto
      with dist show "case map_of ?xs n of None \<Rightarrow> False
              | Some dis \<Rightarrow> construct_dispatcher (ehd e) n dis \<noteq> None"
        by (simp add: dispatcher_built_def)
    qed
    finally show "n \<in> set (map fst (dispatchers h')) \<longleftrightarrow> n \<in> set (map fst ?ys)" .
  qed
  moreover have "distinct (map fst (dispatchers h'))"
    by (rule update_settings_distinct_dispatchers [OF tick d0])
  moreover have "distinct (map fst ?ys)"
    using dist by (rule distinct_map_filter)
  ultimately have "length (map fst (dispatchers h')) = length (map fst ?ys)"
    by (metis distinct_card)
  then show ?thesis by simp
qed


section \<open>The sweep over the listeners\<close>

lemma enqueue_simps [simp]:
  "enqueue [] q = q" "enqueue ys (enqueue xs q) = enqueue (xs @ ys) q"
  "q_items (enqueue xs q) = q_items q @ xs" "q_oid (enqueue xs q) = q_oid q"
  by (simp_all add: enqueue_def)

lemma put_values_effect:
  assumes "map_of (dispatchers a) x = Some d" and "map_of (queue a) x = Some q"
  shows "put_values v x a =
           Inr (a\<lparr>queue := AList.update x (enqueue (if paused d then [] else [v]) q) (queue a)\<rparr>)"
proof -
  have "AList.update x q (queue a) = queue a"
    using assms(2) by (simp add: update_Some_unfold map_of_SomeD update_triv)
  then show ?thesis using assms by (simp add: put_values_def enqueue_def)
qed

lemma put_loop:
  assumes "distinct ns"
    and "\<forall>n \<in> set ns. map_of (dispatchers a) n \<noteq> None \<and> map_of (queue a) n \<noteq> None"
  shows "\<exists>b. for_each (put_values v) ns a = Inr b \<and> b = a\<lparr>queue := queue b\<rparr> \<and>
           (\<forall>n. map_of (queue b) n = (if n \<in> set ns then fanned a [v] n else map_of (queue a) n))"
  using assms
proof (induction ns arbitrary: a)
  case Nil
  then show ?case by simp
next
  case (Cons x xs)
  from Cons.prems(2) obtain d q where d: "map_of (dispatchers a) x = Some d"
    and q: "map_of (queue a) x = Some q" by auto
  let ?a1 = "a\<lparr>queue := AList.update x (enqueue (if paused d then [] else [v]) q) (queue a)\<rparr>"
  have step: "put_values v x a = Inr ?a1" by (rule put_values_effect [OF d q])
  from Cons.prems(1) have nx: "x \<notin> set xs" and dxs: "distinct xs" by auto
  have "\<forall>n \<in> set xs. map_of (dispatchers ?a1) n \<noteq> None \<and> map_of (queue ?a1) n \<noteq> None"
    using Cons.prems(2) nx by (auto simp: update_conv')
  from Cons.IH [OF dxs this] obtain b where
    b: "for_each (put_values v) xs ?a1 = Inr b" "b = ?a1\<lparr>queue := queue b\<rparr>"
      "\<forall>n. map_of (queue b) n
             = (if n \<in> set xs then fanned ?a1 [v] n else map_of (queue ?a1) n)"
    by blast
  have "map_of (queue b) n = (if n \<in> set (x # xs) then fanned a [v] n else map_of (queue a) n)"
    for n
    using b(3) nx d q by (auto simp: fanned_def update_conv' split: option.splits)
  moreover from b(2) have "b = a\<lparr>queue := queue b\<rparr>" by simp
  ultimately show ?case using step b(1) by auto
qed

lemma covered_iff: "covered h \<longleftrightarrow> (\<forall>n. map_of (dispatchers h) n \<noteq> None \<longrightarrow> map_of (queue h) n \<noteq> None)"
  by (auto simp: covered_def list_all_iff map_of_eq_None_iff)

lemma put_loop_all:
  assumes "distinct (map fst (dispatchers a))" and "covered a"
  shows "\<exists>b. for_each (put_values v) (map fst (dispatchers a)) a = Inr b \<and>
           b = a\<lparr>queue := queue b\<rparr> \<and> map_of (queue b) = fanned a [v]"
proof -
  have "\<forall>n \<in> set (map fst (dispatchers a)).
          map_of (dispatchers a) n \<noteq> None \<and> map_of (queue a) n \<noteq> None"
    using assms(2) by (auto simp: covered_def list_all_iff map_of_eq_None_iff)
  from put_loop [OF assms(1) this, of v] obtain b where
    b: "for_each (put_values v) (map fst (dispatchers a)) a = Inr b" "b = a\<lparr>queue := queue b\<rparr>"
      "\<forall>n. map_of (queue b) n
             = (if n \<in> set (map fst (dispatchers a)) then fanned a [v] n else map_of (queue a) n)"
    by blast
  have "map_of (queue b) n = fanned a [v] n" for n
  proof (cases "n \<in> set (map fst (dispatchers a))")
    case True
    with b(3) show ?thesis by simp
  next
    case False
    then have "map_of (dispatchers a) n = None" by (simp add: map_of_eq_None_iff)
    with b(3) False show ?thesis by (simp add: fanned_def)
  qed
  then have "map_of (queue b) = fanned a [v]" by (rule ext)
  with b(1,2) show ?thesis by blast
qed

lemma enqueue_Nil: "enqueue [] = (\<lambda>q. q)"
  by (rule ext) simp

lemma fanned_Nil: "fanned a [] = map_of (queue a)"
  by (rule ext) (simp add: fanned_def enqueue_Nil option.map_ident split: option.splits)

lemma fanned_fanned:
  assumes "dispatchers b = dispatchers a" and "map_of (queue b) = fanned a xs"
  shows "fanned b ys = fanned a (xs @ ys)"
  by (rule ext)
    (simp add: fanned_def assms option.map_comp comp_def split: option.splits)

lemma fanned_covered:
  assumes "covered a" and "dispatchers b = dispatchers a" and "map_of (queue b) = fanned a xs"
  shows "covered b"
  using assms by (auto simp: covered_iff fanned_def)

lemma poll_listener_effect:
  assumes l: "map_of (listeners a) x = Some l"
    and dist: "distinct (map fst (dispatchers a))" and cov: "covered a"
  shows "\<exists>b. poll_listener x a = Inr b \<and>
           b = a\<lparr>listeners := AList.update x (snd (listener_read l)) (listeners a),
                  queue := queue b\<rparr> \<and>
           map_of (queue b) = fanned a (case fst (listener_read l) of None \<Rightarrow> [] | Some v \<Rightarrow> [v])"
proof (cases "fst (listener_read l)")
  case None
  then show ?thesis using l by (simp add: poll_listener_def Let_def fanned_Nil)
next
  case (Some v)
  let ?a1 = "a\<lparr>listeners := AList.update x (snd (listener_read l)) (listeners a)\<rparr>"
  have "distinct (map fst (dispatchers ?a1))" "covered ?a1"
    using dist cov by (simp_all add: covered_def)
  from put_loop_all [OF this, of v] obtain b where
    b: "for_each (put_values v) (map fst (dispatchers ?a1)) ?a1 = Inr b"
      "b = ?a1\<lparr>queue := queue b\<rparr>" "map_of (queue b) = fanned ?a1 [v]"
    by blast
  have "fanned ?a1 [v] = fanned a [v]"
    by (rule ext) (simp add: fanned_def split: option.splits)
  with b Some l show ?thesis by (auto simp: poll_listener_def Let_def)
qed

lemma produced_by_Cons:
  "produced_by (x # xs) a =
     (case map_of (listeners a) x of
        None \<Rightarrow> []
      | Some l \<Rightarrow> (case fst (listener_read l) of None \<Rightarrow> [] | Some v \<Rightarrow> [v]))
     @ produced_by xs a"
  by (simp add: produced_by_def map_filter_simps split: option.splits)

lemma produced_by_cong:
  assumes "\<forall>n \<in> set xs. map_of (listeners b) n = map_of (listeners a) n"
  shows "produced_by xs b = produced_by xs a"
  using assms
  by (induction xs) (auto simp: produced_by_def map_filter_simps split: option.splits)

lemma sweep:
  assumes "distinct lns" and "\<forall>n \<in> set lns. map_of (listeners a) n \<noteq> None"
    and "distinct (map fst (dispatchers a))" and "covered a"
  shows "\<exists>b. for_each poll_listener lns a = Inr b \<and> dispatchers b = dispatchers a \<and>
           b = a\<lparr>listeners := listeners b, queue := queue b\<rparr> \<and>
           map_of (queue b) = fanned a (produced_by lns a)"
  using assms
proof (induction lns arbitrary: a)
  case Nil
  then show ?case by (simp add: produced_by_def map_filter_simps fanned_Nil)
next
  case (Cons x xs)
  from Cons.prems(2) obtain l where l: "map_of (listeners a) x = Some l" by auto
  let ?vs = "case fst (listener_read l) of None \<Rightarrow> [] | Some v \<Rightarrow> [v]"
  from poll_listener_effect [OF l Cons.prems(3,4)] obtain m where
    m: "poll_listener x a = Inr m"
      "m = a\<lparr>listeners := AList.update x (snd (listener_read l)) (listeners a), queue := queue m\<rparr>"
      "map_of (queue m) = fanned a ?vs"
    by blast
  have dm: "dispatchers m = dispatchers a"
    by (subst m(2)) simp
  have lm: "listeners m = AList.update x (snd (listener_read l)) (listeners a)"
    by (subst m(2)) simp
  from Cons.prems(1) have nx: "x \<notin> set xs" and dxs: "distinct xs" by auto
  have same: "\<forall>n \<in> set xs. map_of (listeners m) n = map_of (listeners a) n"
    using nx lm by (auto simp: update_conv')
  with Cons.prems(2) have p2: "\<forall>n \<in> set xs. map_of (listeners m) n \<noteq> None" by simp
  have p3: "distinct (map fst (dispatchers m))" using dm Cons.prems(3) by simp
  have p4: "covered m" by (rule fanned_covered [OF Cons.prems(4) dm m(3)])
  from Cons.IH [OF dxs p2 p3 p4] obtain b where
    b: "for_each poll_listener xs m = Inr b" "dispatchers b = dispatchers m"
      "b = m\<lparr>listeners := listeners b, queue := queue b\<rparr>"
      "map_of (queue b) = fanned m (produced_by xs m)"
    by blast
  have "fanned m (produced_by xs m) = fanned a (?vs @ produced_by xs a)"
    using fanned_fanned [OF dm m(3)] produced_by_cong [OF same] by simp
  also have "?vs @ produced_by xs a = produced_by (x # xs) a"
    by (simp add: produced_by_Cons l)
  finally have q: "map_of (queue b) = fanned a (produced_by (x # xs) a)" using b(4) by simp
  have "b = a\<lparr>listeners := listeners b, queue := queue b\<rparr>"
    by (subst b(3), subst m(2)) simp
  with m(1) b(1,2) dm q show ?case by auto
qed

lemma paused_iff:
  "paused d \<longleftrightarrow>
     \<not> (case map_of (d_settings d) ''pause'' of
          None \<Rightarrow> True
        | Some p \<Rightarrow> p \<notin> {''i'', ''I'', ''in'', ''In'', ''IN'', ''t'', ''T'', ''true'', ''True'', ''TRUE''})"
  by (simp add: paused_def pause_spellings_def split: option.splits)

lemmas run_defs =
  poll_listeners_def poll_listener_def put_values_def listener_read_def paused_def
  pause_spellings_def


section \<open>A signal during the sweep\<close>

text \<open>The handler and the sweep touch different fields, so a signal that arrives while
  the sweep is under way leaves the state that the whole sweep followed by the handler
  leaves.\<close>

lemma for_each_commute:
  assumes "\<And>x a. f x (g a) = map_sum id g (f x a)"
  shows "for_each f xs (g a) = map_sum id g (for_each f xs a)"
proof (induction xs arbitrary: a)
  case Nil
  then show ?case by simp
next
  case (Cons x xs)
  then show ?case by (cases "f x a") (simp_all add: assms)
qed

lemma put_values_sigint:
  "put_values v x (sigint_handler a) = map_sum id sigint_handler (put_values v x a)"
  by (simp add: put_values_def sigint_handler_def log_debug_def split: option.splits)

lemma poll_listener_sigint:
  "poll_listener x (sigint_handler a) = map_sum id sigint_handler (poll_listener x a)"
proof (cases "map_of (listeners a) x")
  case None
  then show ?thesis by (simp add: poll_listener_def sigint_handler_def log_debug_def)
next
  case (Some l)
  let ?a1 = "a\<lparr>listeners := AList.update x (snd (listener_read l)) (listeners a)\<rparr>"
  have s: "(sigint_handler a)\<lparr>listeners := AList.update x (snd (listener_read l))
             (listeners (sigint_handler a))\<rparr> = sigint_handler ?a1"
    by (simp add: sigint_handler_def log_debug_def)
  have d: "dispatchers (sigint_handler ?a1) = dispatchers ?a1"
    by (simp add: sigint_handler_def log_debug_def)
  have l: "map_of (listeners (sigint_handler a)) x = Some l"
    using Some by (simp add: sigint_handler_def log_debug_def)
  show ?thesis
  proof (cases "fst (listener_read l)")
    case None
    with Some l s show ?thesis by (simp add: poll_listener_def Let_def)
  next
    case (Some v)
    have "for_each (put_values v) (map fst (dispatchers ?a1)) (sigint_handler ?a1)
            = map_sum id sigint_handler (for_each (put_values v) (map fst (dispatchers ?a1)) ?a1)"
      by (rule for_each_commute) (rule put_values_sigint)
    with Some \<open>map_of (listeners a) x = Some l\<close> l s d show ?thesis
      by (simp add: poll_listener_def Let_def)
  qed
qed

lemma sweep_with_signal_eq:
  "sweep_with_signal k h = map_sum id sigint_handler (poll_listeners h)"
proof -
  let ?ns = "map fst (listeners h)"
  have "poll_listeners h = for_each poll_listener (take k ?ns @ drop k ?ns) h"
    by (simp add: poll_listeners_def)
  also have "\<dots> = (case for_each poll_listener (take k ?ns) h of
                      Inl x \<Rightarrow> Inl x
                    | Inr h1 \<Rightarrow> for_each poll_listener (drop k ?ns) h1)"
    by (rule for_each_append)
  finally have p: "poll_listeners h = (case for_each poll_listener (take k ?ns) h of
                      Inl x \<Rightarrow> Inl x
                    | Inr h1 \<Rightarrow> for_each poll_listener (drop k ?ns) h1)" .
  have c: "for_each poll_listener (drop k ?ns) (sigint_handler a)
             = map_sum id sigint_handler (for_each poll_listener (drop k ?ns) a)" for a
    by (rule for_each_commute) (rule poll_listener_sigint)
  show ?thesis
    by (simp add: sweep_with_signal_def p c split: sum.splits)
qed

lemma iteration_stages:
  assumes "iteration e t h = Inr h'"
  obtains h1 h2 where
    "(case new_settings t of None \<Rightarrow> Inr h | Some s \<Rightarrow> update_settings e s h) = Inr h1"
    and "poll_listeners h1 = Inr h2"
    and "h' = (if sigint t = None then h2 else sigint_handler h2)"
proof -
  from assms obtain h1 where
    h1: "(case new_settings t of None \<Rightarrow> Inr h | Some s \<Rightarrow> update_settings e s h) = Inr h1"
    and r: "(case sigint t of None \<Rightarrow> poll_listeners h1 | Some k \<Rightarrow> sweep_with_signal k h1)
              = Inr h'"
    by (auto simp: iteration_def split: sum.splits)
  show ?thesis
  proof (cases "sigint t")
    case None
    with r h1 that [of h1 h'] show ?thesis by simp
  next
    case (Some k)
    with r obtain h2 where "poll_listeners h1 = Inr h2" "h' = sigint_handler h2"
      by (cases "poll_listeners h1") (auto simp: sweep_with_signal_eq)
    with Some h1 that [of h1 h2] show ?thesis by simp
  qed
qed


section \<open>Every live dispatcher has a queue\<close>

lemma delete_dispatcher_covered:
  "delete_dispatcher s x a = Inr b \<Longrightarrow> covered a \<Longrightarrow> covered b"
  by (auto simp: covered_iff delete_dispatcher_def drop_dispatcher_def log_info_def Let_def
        delete_conv' split: option.splits if_splits)

lemma create_dispatcher_covered:
  "create_dispatcher m x a = Inr b \<Longrightarrow> covered a \<Longrightarrow> covered b"
  by (auto simp: covered_iff create_dispatcher_def apply_dispatcher_runtime_def new_queue_def
        register_dispatcher_def log_info_def log_error_def Let_def update_conv'
        split: option.splits if_splits sum.splits)

lemma create_dispatcher_keeps_queues:
  "create_dispatcher m x a = Inr b \<Longrightarrow> keeps_queues a b"
  by (auto simp: keeps_queues_def create_dispatcher_def apply_dispatcher_runtime_def
        new_queue_def register_dispatcher_def log_info_def log_error_def Let_def update_conv'
        split: option.splits if_splits sum.splits)

lemma keeps_queues_refl: "keeps_queues a a"
  by (simp add: keeps_queues_def)

lemma keeps_queues_trans: "keeps_queues a b \<Longrightarrow> keeps_queues b c \<Longrightarrow> keeps_queues a c"
  by (simp add: keeps_queues_def)

lemma keeps_queues_eq: "queue b = queue a \<Longrightarrow> keeps_queues a b"
  by (simp add: keeps_queues_def)

lemma covered_cong:
  "dispatchers b = dispatchers a \<Longrightarrow> queue b = queue a \<Longrightarrow> covered b = covered a"
  by (simp add: covered_def)

lemma update_settings_covered:
  assumes "update_settings e s h = Inr h'"
  shows "keeps_queues h h'" and "covered h \<Longrightarrow> covered h'"
proof -
  from assms obtain h0 h1 h2 h3 h4 where
    st0: "tick_start h h0"
    and st: "for_each (delete_dispatcher s) (map fst (dispatchers h)) h0 = Inr h1"
      "for_each (create_dispatcher (ehd e)) (s_dispatchers s) h1 = Inr h2"
      "for_each (delete_listener s) (map fst (listeners h2)) h2 = Inr h3"
      "for_each (create_listener (ehl e)) (s_listeners s) h3 = Inr h4"
      "h' = publish_nodes s h4"
    by (rule update_settings_stages)
  have q0: "queue h0 = queue h" "dispatchers h0 = dispatchers h"
    by (simp_all add: tick_startD [OF st0])
  have q1: "queue h1 = queue h"
    by (rule for_each_inv [OF st(1)]) (auto simp: q0 dest: delete_dispatcher_frame)
  have k2: "keeps_queues h1 h2"
    by (rule for_each_inv [OF st(2), where P = "keeps_queues h1"])
      (auto intro: keeps_queues_refl keeps_queues_trans create_dispatcher_keeps_queues)
  have q3: "queue h3 = queue h2 \<and> dispatchers h3 = dispatchers h2"
    by (rule for_each_inv [OF st(3)]) (auto dest: delete_listener_frame)
  have q4: "queue h4 = queue h3 \<and> dispatchers h4 = dispatchers h3"
    by (rule for_each_inv [OF st(4)]) (auto dest: create_listener_frame)
  have q5: "queue h' = queue h4" "dispatchers h' = dispatchers h4"
    using st(5) by (simp_all add: publish_nodes_def split: option.splits)
  from k2 q1 q3 q4 q5 show "keeps_queues h h'" by (simp add: keeps_queues_def)
  assume c: "covered h"
  then have "covered h0" using q0 by (simp add: covered_def)
  then have "covered h1"
    by (rule for_each_inv [OF st(1), where P = covered]) (auto dest: delete_dispatcher_covered)
  then have "covered h2"
    by (rule for_each_inv [OF st(2), where P = covered]) (auto dest: create_dispatcher_covered)
  with q3 q4 q5 show "covered h'" by (simp add: covered_def)
qed

lemma sweep_frame_refl: "sweep_frame a a"
  by (simp add: sweep_frame_def)

lemma sweep_frame_trans: "sweep_frame a b \<Longrightarrow> sweep_frame b c \<Longrightarrow> sweep_frame a c"
  by (simp add: sweep_frame_def)

lemma put_values_frame: "put_values v x a = Inr b \<Longrightarrow> sweep_frame a b"
  by (auto simp: sweep_frame_def put_values_def update_conv' split: option.splits if_splits)

lemma poll_listener_frame:
  assumes "poll_listener x a = Inr b"
  shows "sweep_frame a b"
proof -
  from assms obtain l where l: "map_of (listeners a) x = Some l"
    by (auto simp: poll_listener_def split: option.splits)
  let ?a1 = "a\<lparr>listeners := AList.update x (snd (listener_read l)) (listeners a)\<rparr>"
  have a1: "sweep_frame a ?a1" by (simp add: sweep_frame_def)
  show ?thesis
  proof (cases "fst (listener_read l)")
    case None
    with assms l a1 show ?thesis by (auto simp: poll_listener_def Let_def)
  next
    case (Some v)
    with assms l have loop: "for_each (put_values v) (map fst (dispatchers ?a1)) ?a1 = Inr b"
      by (simp add: poll_listener_def Let_def)
    have "sweep_frame ?a1 b"
      by (rule for_each_inv [OF loop, where P = "sweep_frame ?a1"])
        (auto intro: sweep_frame_refl sweep_frame_trans put_values_frame)
    with a1 show ?thesis by (rule sweep_frame_trans)
  qed
qed

lemma poll_listeners_frame:
  assumes "poll_listeners a = Inr b"
  shows "sweep_frame a b"
proof -
  from assms have loop: "for_each poll_listener (map fst (listeners a)) a = Inr b"
    by (simp add: poll_listeners_def)
  show ?thesis
    by (rule for_each_inv [OF loop, where P = "sweep_frame a"])
      (auto intro: sweep_frame_refl sweep_frame_trans poll_listener_frame)
qed

lemma sweep_frame_covered: "sweep_frame a b \<Longrightarrow> covered a \<Longrightarrow> covered b"
  by (simp add: sweep_frame_def covered_iff)

lemma sweep_frame_keeps_queues: "sweep_frame a b \<Longrightarrow> keeps_queues a b"
  by (simp add: sweep_frame_def keeps_queues_def)

lemma sigint_handler_frame:
  "dispatchers (sigint_handler a) = dispatchers a \<and> queue (sigint_handler a) = queue a \<and>
   listeners (sigint_handler a) = listeners a \<and> exit_flag (sigint_handler a)"
  by (simp add: sigint_handler_def log_debug_def)

lemma iteration_covered:
  assumes "iteration e t h = Inr h'"
  shows "keeps_queues h h'" and "covered h \<Longrightarrow> covered h'"
proof -
  from assms obtain h1 h2 where
    h1: "(case new_settings t of None \<Rightarrow> Inr h | Some s \<Rightarrow> update_settings e s h) = Inr h1"
    and h2: "poll_listeners h1 = Inr h2"
    and h': "h' = (if sigint t = None then h2 else sigint_handler h2)"
    by (rule iteration_stages)
  from h1 have a: "keeps_queues h h1 \<and> (covered h \<longrightarrow> covered h1)"
    by (auto split: option.splits intro: keeps_queues_refl dest: update_settings_covered)
  note c = sweep_frame_keeps_queues [OF poll_listeners_frame [OF h2]]
    sweep_frame_covered [OF poll_listeners_frame [OF h2]]
  have d: "keeps_queues h2 h' \<and> (covered h2 \<longrightarrow> covered h')"
    by (simp add: h' keeps_queues_def covered_def sigint_handler_frame)
  from a c(1) d show "keeps_queues h h'" by (blast intro: keeps_queues_trans)
  assume "covered h"
  with a c(2) d show "covered h'" by blast
qed

section \<open>The states between iterations are well formed\<close>

text \<open>The theorems below ask for dictionaries with distinct keys and, for the sweep, for a
  queue under every live dispatcher.  Every state the hub reaches is of this kind.\<close>

lemma delete_listener_distinct:
  "delete_listener s x a = Inr b \<Longrightarrow> distinct (map fst (listeners a))
     \<Longrightarrow> distinct (map fst (listeners b))"
  by (auto simp: delete_listener_def drop_listener_def log_info_def Let_def
        distinct_delete split: option.splits if_splits)

lemma create_listener_distinct:
  "create_listener m x a = Inr b \<Longrightarrow> distinct (map fst (listeners a))
     \<Longrightarrow> distinct (map fst (listeners b))"
  by (auto simp: create_listener_def apply_listener_runtime_def
        register_listener_def log_info_def log_error_def Let_def distinct_update
        split: option.splits if_splits sum.splits)

lemma update_settings_distinct_listeners:
  assumes "update_settings e s h = Inr h'" and "distinct (map fst (listeners h))"
  shows "distinct (map fst (listeners h'))"
proof -
  from assms(1) obtain h2 h3 h4 where
    h2: "listeners h2 = listeners h"
    and del: "for_each (delete_listener s) (map fst (listeners h)) h2 = Inr h3"
    and cre: "for_each (create_listener (ehl e)) (s_listeners s) h3 = Inr h4"
    and h': "listeners h' = listeners h4"
    by (rule update_settings_listener_stages)
  let ?P = "\<lambda>a. distinct (map fst (listeners a))"
  have "?P h3"
    by (rule for_each_inv [OF del, where P = ?P])
      (use assms(2) h2 in \<open>auto dest: delete_listener_distinct\<close>)
  then have "?P h4"
    by (rule for_each_inv [OF cre, where P = ?P]) (auto dest: create_listener_distinct)
  with h' show ?thesis by simp
qed

lemma put_values_listeners: "put_values v x a = Inr b \<Longrightarrow> listeners b = listeners a"
  by (auto simp: put_values_def split: option.splits if_splits)

lemma poll_listener_keys:
  assumes "poll_listener x a = Inr b"
  shows "map fst (listeners b) = map fst (listeners a)"
proof -
  from assms obtain l where l: "map_of (listeners a) x = Some l"
    by (auto simp: poll_listener_def split: option.splits)
  let ?a1 = "a\<lparr>listeners := AList.update x (snd (listener_read l)) (listeners a)\<rparr>"
  have k: "map fst (listeners ?a1) = map fst (listeners a)"
    using live_key [OF l] by (simp add: update_keys)
  show ?thesis
  proof (cases "fst (listener_read l)")
    case None
    with assms l k show ?thesis by (simp add: poll_listener_def Let_def)
  next
    case (Some v)
    with assms l have loop: "for_each (put_values v) (map fst (dispatchers ?a1)) ?a1 = Inr b"
      by (simp add: poll_listener_def Let_def)
    have "listeners b = listeners ?a1"
      by (rule for_each_inv [OF loop]) (auto dest: put_values_listeners)
    with k show ?thesis by simp
  qed
qed

lemma poll_listeners_keys:
  assumes "poll_listeners a = Inr b"
  shows "map fst (listeners b) = map fst (listeners a)"
proof -
  from assms have loop: "for_each poll_listener (map fst (listeners a)) a = Inr b"
    by (simp add: poll_listeners_def)
  show ?thesis
    by (rule for_each_inv [OF loop]) (auto dest: poll_listener_keys)
qed

lemma iteration_distinct:
  assumes "iteration e t h = Inr h'"
    and "distinct (map fst (dispatchers h))" and "distinct (map fst (listeners h))"
  shows "distinct (map fst (dispatchers h')) \<and> distinct (map fst (listeners h'))"
proof -
  from assms(1) obtain h1 h2 where
    h1: "(case new_settings t of None \<Rightarrow> Inr h | Some s \<Rightarrow> update_settings e s h) = Inr h1"
    and h2: "poll_listeners h1 = Inr h2"
    and h': "h' = (if sigint t = None then h2 else sigint_handler h2)"
    by (rule iteration_stages)
  from h1 assms(2,3)
  have a: "distinct (map fst (dispatchers h1)) \<and> distinct (map fst (listeners h1))"
    by (auto split: option.splits
          dest: update_settings_distinct_dispatchers update_settings_distinct_listeners)
  from poll_listeners_frame [OF h2] poll_listeners_keys [OF h2] a
  have "distinct (map fst (dispatchers h2)) \<and> distinct (map fst (listeners h2))"
    by (simp add: sweep_frame_def)
  with h' show ?thesis by (simp add: sigint_handler_frame)
qed

lemma reachable_well_formed:
  assumes "reachable e h"
  shows "distinct (map fst (dispatchers h)) \<and> distinct (map fst (listeners h)) \<and> covered h"
  using assms
proof (induction rule: reachable.induct)
  case (started s h)
  then obtain hl where hl: "set_logging_level (logging e) (hub_loglevel s) empty_hub = Inr hl"
    and up: "update_settings e s
               (log_info ''Opening hub...''
                 (log_info ''EmonHub Pre-Release Development Version'' hl)) = Inr h"
    by (auto simp: init_hub_def split: sum.splits)
  let ?h = "log_info ''Opening hub...''
         (log_info ''EmonHub Pre-Release Development Version'' hl)"
  have "distinct (map fst (dispatchers ?h))" "distinct (map fst (listeners ?h))" "covered ?h"
    using set_logging_level_frame [OF hl]
    by (simp_all add: covered_def log_info_def empty_hub_def)
  with up show ?case
    by (auto dest: update_settings_covered(2) update_settings_distinct_dispatchers
            update_settings_distinct_listeners)
next
  case (iterated h t h')
  then show ?case by (auto dest: iteration_covered(2) iteration_distinct)
qed


section \<open>The main loop and the exit flag\<close>

lemma update_settings_exit_flag:
  assumes "update_settings e s h = Inr h'"
  shows "exit_flag h' = exit_flag h"
proof -
  from assms obtain h0 h1 h2 h3 h4 where
    st0: "tick_start h h0"
    and st: "for_each (delete_dispatcher s) (map fst (dispatchers h)) h0 = Inr h1"
    "for_each (create_dispatcher (ehd e)) (s_dispatchers s) h1 = Inr h2"
    "for_each (delete_listener s) (map fst (listeners h2)) h2 = Inr h3"
    "for_each (create_listener (ehl e)) (s_listeners s) h3 = Inr h4"
    "h' = publish_nodes s h4"
    by (rule update_settings_stages)
  have "exit_flag h1 = exit_flag h"
    by (rule for_each_inv [OF st(1)]) (auto simp: tick_startD [OF st0] dest: delete_dispatcher_frame)
  moreover have "exit_flag h2 = exit_flag h1"
    by (rule for_each_inv [OF st(2)]) (auto dest: create_dispatcher_frame)
  moreover have "exit_flag h3 = exit_flag h2"
    by (rule for_each_inv [OF st(3)]) (auto dest: delete_listener_frame)
  moreover have "exit_flag h4 = exit_flag h3"
    by (rule for_each_inv [OF st(4)]) (auto dest: create_listener_frame)
  ultimately show ?thesis using st(5)
    by (simp add: publish_nodes_def split: option.splits)
qed

lemma iteration_exit_flag:
  assumes "iteration e t h = Inr h'"
  shows "exit_flag h' = (exit_flag h \<or> sigint t \<noteq> None)"
proof -
  from assms obtain h1 h2 where
    h1: "(case new_settings t of None \<Rightarrow> Inr h | Some s \<Rightarrow> update_settings e s h) = Inr h1"
    and h2: "poll_listeners h1 = Inr h2"
    and h': "h' = (if sigint t = None then h2 else sigint_handler h2)"
    by (rule iteration_stages)
  from h1 have "exit_flag h1 = exit_flag h"
    by (auto split: option.splits dest: update_settings_exit_flag)
  with poll_listeners_frame [OF h2] h' show ?thesis
    by (auto simp: sweep_frame_def sigint_handler_frame)
qed

lemma run_quiet_prefix:
  assumes "\<not> exit_flag h"
    and "list_all (\<lambda>t. sigint t = None) pre"
    and "for_each (iteration e) pre h = Inr hp"
  shows "run e (pre @ rest) h = run e rest hp \<and> \<not> exit_flag hp"
  using assms
proof (induction pre arbitrary: h)
  case Nil
  then show ?case by simp
next
  case (Cons t ts)
  from Cons.prems(3) obtain m where m: "iteration e t h = Inr m"
    and r: "for_each (iteration e) ts m = Inr hp"
    by (auto split: sum.splits)
  from iteration_exit_flag [OF m] Cons.prems(1,2) have "\<not> exit_flag m" by simp
  from Cons.IH [OF this _ r] Cons.prems(1,2) m show ?case by simp
qed

lemma close_effect:
  "list_all (l_closed \<circ> snd) (listeners (close h)) \<and>
   list_all (d_stop \<circ> snd) (dispatchers (close h)) \<and>
   map fst (listeners (close h)) = map fst (listeners h) \<and>
   map fst (dispatchers (close h)) = map fst (dispatchers h) \<and>
   map (l_polls \<circ> snd) (listeners (close h)) = map (l_polls \<circ> snd) (listeners h)"
  by (auto simp: close_def log_info_def listener_close_def list_all_iff)


section \<open>Rebuilding a dispatcher\<close>

text \<open>
  C1, as the source has it: a live dispatcher whose recorded \<open>init_settings\<close> differ
  from the snapshot's, whose retained buffer is not empty, and whose descriptor still
  carries a type naming a class whose constructor accepts the new \<open>init_settings\<close>,
  is rebuilt by a tick that completes: the old handle is stopped and leaves the live set,
  and the name gets a handle allocated during the tick whose buffer is the buffer before
  the tick and whose queue is a queue allocated during the tick, with no items.
  (Dictionaries have distinct keys.)
\<close>

theorem rebuilt_dispatcher_keeps_buffer:
  assumes tick: "update_settings e s h = Inr h'"
    and dist: "distinct (map fst (dispatchers h))" "distinct (map fst (s_dispatchers s))"
    and live: "map_of (dispatchers h) n = Some d"
    and desc: "map_of (s_dispatchers s) n = Some dis"
    and changed: "\<not> dict_eq (d_init_settings d) (init_settings dis)"
    and buf: "d_buffer d \<noteq> []"
    and cons: "dtype dis = Some t" "ehd e t = Some cls" "cls n (init_settings dis) = Inr d0"
  shows "\<exists>d' q. map_of (dispatchers h') n = Some d' \<and> map_of (queue h') n = Some q
           \<and> d_buffer d' = d_buffer d \<and> d_init_settings d' = init_settings dis
           \<and> next_oid h \<le> d_oid d' \<and> q_items q = [] \<and> next_oid h \<le> q_oid q
           \<and> d\<lparr>d_stop := True\<rparr> \<in> set (released_dispatchers h')"
proof -
  from tick obtain h0 h1 h2 where
    h0: "dispatchers h0 = dispatchers h" "temp_buffer h0 = []" "next_oid h0 = next_oid h"
      "queue h0 = queue h" "released_dispatchers h0 = released_dispatchers h"
    and del: "for_each (delete_dispatcher s) (map fst (dispatchers h)) h0 = Inr h1"
    and cre: "for_each (create_dispatcher (ehd e)) (s_dispatchers s) h1 = Inr h2"
    and rest: "\<forall>n. d_agree n h2 h'"
    by (rule update_settings_dispatcher_stages)
  from live h0 have live0: "map_of (dispatchers h0) n = Some d" by simp
  note dropped = delete_phase_dropped [OF del dist(1) live_key [OF live] live0 desc disjI1 [OF changed]]
  from desc have mem: "(n, dis) \<in> set (s_dispatchers s)" by (rule map_of_SomeD)
  from create_phase_builds [OF cre dist(2) mem dropped(1) cons] dropped(3) changed buf
  obtain k where k: "next_oid h1 \<le> k"
    "map_of (dispatchers h2) n =
       Some (d0\<lparr>d_oid := Suc k, d_init_settings := init_settings dis,
                d_buffer := d_buffer d, d_settings := runtime_settings dis\<rparr>)"
    "map_of (queue h2) n = Some \<lparr>q_oid = k, q_items = []\<rparr>"
    by auto
  have "released_dispatchers h2 = released_dispatchers h1"
    by (rule for_each_inv [OF cre]) (auto dest: create_dispatcher_frame)
  with dropped(2) rest have "d\<lparr>d_stop := True\<rparr> \<in> set (released_dispatchers h')"
    by (auto simp: d_agree_def)
  moreover from k(1) dropped(5) h0(3) have "next_oid h \<le> k" by simp
  ultimately show ?thesis using k(2,3) rest by (simp add: d_agree_def)
qed

theorem rebuilt_dispatcher_keeps_buffer_witness:
  "\<exists>h' d' q.
     update_settings ex_env (ex_settings [ex_d1_moved, ex_d2, ex_d3] [ex_l1, ex_l2]) ex_hub = Inr h'
     \<and> map_of (dispatchers h') ''d1'' = Some d' \<and> map_of (queue h') ''d1'' = Some q
     \<and> d_buffer d' = [5, 6] \<and> d_init_settings d' = [(''url'', ''z'')]
     \<and> 8 \<le> d_oid d' \<and> q_items q = [] \<and> 8 \<le> q_oid q"
proof -
  let ?s = "ex_settings [ex_d1_moved, ex_d2, ex_d3] [ex_l1, ex_l2]"
  have "\<exists>h'. update_settings ex_env ?s ex_hub = Inr h'"
    by (simp add: model_defs ex_defs ex_d1_moved_def)
  then obtain h' where tick: "update_settings ex_env ?s ex_hub = Inr h'" by blast
  have p: "distinct (map fst (dispatchers ex_hub))" "distinct (map fst (s_dispatchers ?s))"
    "map_of (dispatchers ex_hub) ''d1'' = Some (snd (hd (dispatchers ex_hub)))"
    "map_of (s_dispatchers ?s) ''d1'' = Some (snd ex_d1_moved)"
    "\<not> dict_eq (d_init_settings (snd (hd (dispatchers ex_hub)))) (init_settings (snd ex_d1_moved))"
    "d_buffer (snd (hd (dispatchers ex_hub))) \<noteq> []"
    "dtype (snd ex_d1_moved) = Some ''D''"
    "ehd ex_env ''D'' = Some (the (ehd ex_env ''D''))"
    "the (ehd ex_env ''D'') ''d1'' (init_settings (snd ex_d1_moved)) = Inr ex_dispatcher"
    by (simp_all add: ex_defs ex_d1_moved_def dict_eq_def)
  from rebuilt_dispatcher_keeps_buffer [OF tick p]
  show ?thesis using tick by (auto simp: ex_defs ex_d1_moved_def)
qed

text \<open>
  The claim promises the new handle for every dispatcher with changed \<open>init_settings\<close>
  and a buffer.  When the class rejects the new settings the tick completes all the same:
  the old handle of \<open>d1\<close> is stopped and released, a queue is made for the name, the
  failure is logged, and no handle is registered under the name.
\<close>

theorem rejected_rebuild_has_no_handle:
  "map_of (dispatchers ex_hub) ''d1''
     = Some \<lparr>d_oid = 1, d_init_settings = [(''url'', ''a'')], d_settings = [],
              d_buffer = [5, 6], d_stop = False\<rparr>
   \<and> map_of (s_dispatchers (ex_settings [ex_d1_bad, ex_d2, ex_d3] [ex_l1, ex_l2])) ''d1''
       = Some (ex_desc (Some ''D'') [] [])
   \<and> \<not> dict_eq [(''url'', ''a'')] (init_settings (ex_desc (Some ''D'') [] []))
   \<and> \<not> isl (ex_tick [ex_d1_bad, ex_d2, ex_d3] [ex_l1, ex_l2])
   \<and> map_of (dispatchers (projr (ex_tick [ex_d1_bad, ex_d2, ex_d3] [ex_l1, ex_l2]))) ''d1'' = None
   \<and> released_dispatchers (projr (ex_tick [ex_d1_bad, ex_d2, ex_d3] [ex_l1, ex_l2]))
       = [\<lparr>d_oid = 1, d_init_settings = [(''url'', ''a'')], d_settings = [],
            d_buffer = [5, 6], d_stop = True\<rparr>]
   \<and> map_of (queue (projr (ex_tick [ex_d1_bad, ex_d2, ex_d3] [ex_l1, ex_l2]))) ''d1''
       = Some \<lparr>q_oid = 8, q_items = []\<rparr>"
  by (simp add: model_defs ex_defs)

section \<open>A listener whose \<open>init_settings\<close> changed\<close>

text \<open>
  C2, as the source has it: the branch for changed \<open>init_settings\<close> is \<open>pass\<close>, which
  falls through to the statements that close and delete the listener.  So a live listener
  whose recorded \<open>init_settings\<close> differ from the snapshot's is closed and leaves the
  live set, and the creation loop of the same tick registers a newly constructed handle
  under the name when the descriptor has a type and the class accepts the settings;
  otherwise the name is left without a handle.
\<close>

theorem changed_listener_is_rebuilt:
  assumes tick: "update_settings e s h = Inr h'"
    and dist: "distinct (map fst (listeners h))" "distinct (map fst (s_listeners s))"
    and live: "map_of (listeners h) n = Some l"
    and desc: "map_of (s_listeners s) n = Some lis"
    and changed: "\<not> dict_eq (l_init_settings l) (init_settings lis)"
  shows "listener_close l \<in> set (released_listeners h') \<and>
         (\<exists>k \<ge> next_oid h.
            map_of (listeners h') n =
              map_option (\<lambda>l0. l0\<lparr>l_oid := k, l_init_settings := init_settings lis,
                                   l_name := Some n, l_settings := runtime_settings lis\<rparr>)
                (construct_listener (ehl e) lis))"
proof -
  from tick obtain h2 h3 h4 where
    h2: "listeners h2 = listeners h" "released_listeners h2 = released_listeners h"
      "next_oid h \<le> next_oid h2"
    and del: "for_each (delete_listener s) (map fst (listeners h)) h2 = Inr h3"
    and cre: "for_each (create_listener (ehl e)) (s_listeners s) h3 = Inr h4"
    and h': "listeners h' = listeners h4" "released_listeners h' = released_listeners h4"
    by (rule update_settings_listener_stages)
  from live h2 have live2: "map_of (listeners h2) n = Some l" by simp
  note dropped = listener_delete_phase_dropped
    [OF del dist(1) live_key [OF live] live2 desc disjI1 [OF changed]]
  from desc have mem: "(n, lis) \<in> set (s_listeners s)" by (rule map_of_SomeD)
  have "released_listeners h4 = released_listeners h3"
    by (rule for_each_inv [OF cre]) (auto dest: create_listener_frame)
  with dropped(2) h' have "listener_close l \<in> set (released_listeners h')" by simp
  moreover from listener_create_phase_absent [OF cre dist(2) mem dropped(1)] dropped(3) h2(3) h'
  have "\<exists>k \<ge> next_oid h.
            map_of (listeners h') n =
              map_option (\<lambda>l0. l0\<lparr>l_oid := k, l_init_settings := init_settings lis,
                                   l_name := Some n, l_settings := runtime_settings lis\<rparr>)
                (construct_listener (ehl e) lis)"
    by (metis le_trans)
  ultimately show ?thesis by simp
qed

theorem changed_listener_is_rebuilt_witness:
  "\<exists>h' l'. ex_tick [ex_d1, ex_d2, ex_d3] [ex_l1_moved, ex_l2] = Inr h'
      \<and> map_of (listeners h') ''l1'' = Some l' \<and> 8 \<le> l_oid l'
      \<and> l_init_settings l' = [(''port'', ''9'')]
      \<and> listener_close (snd (hd (listeners ex_hub))) \<in> set (released_listeners h')"
proof -
  let ?s = "ex_settings [ex_d1, ex_d2, ex_d3] [ex_l1_moved, ex_l2]"
  have "\<exists>h'. update_settings ex_env ?s ex_hub = Inr h'"
    by (simp add: model_defs ex_defs)
  then obtain h' where tick: "update_settings ex_env ?s ex_hub = Inr h'" by blast
  have p: "distinct (map fst (listeners ex_hub))" "distinct (map fst (s_listeners ?s))"
    "map_of (listeners ex_hub) ''l1'' = Some (snd (hd (listeners ex_hub)))"
    "map_of (s_listeners ?s) ''l1'' = Some (snd ex_l1_moved)"
    "\<not> dict_eq (l_init_settings (snd (hd (listeners ex_hub)))) (init_settings (snd ex_l1_moved))"
    by (simp_all add: ex_defs dict_eq_def)
  have c: "construct_listener (ehl ex_env) (snd ex_l1_moved) = Some ex_listener"
    by (simp add: construct_listener_def ex_defs)
  from changed_listener_is_rebuilt [OF tick p] c
  show ?thesis using tick by (auto simp: ex_defs)
qed

text \<open>
  The claim says that the tick takes no action on such a listener.  On the example hub
  the listener \<open>l1\<close> is object 6 before the tick; after a tick that changes only its
  \<open>port\<close>, object 6 has been closed and released and \<open>l1\<close> is the new object 8.
\<close>

theorem changed_listener_is_closed_and_replaced:
  "dtype (snd ex_l1_moved) = dtype (snd ex_l1)
   \<and> \<not> isl (ex_tick [ex_d1, ex_d2, ex_d3] [ex_l1_moved, ex_l2])
   \<and> map_option l_oid (map_of (listeners ex_hub) ''l1'') = Some 6
   \<and> map_option l_oid
        (map_of (listeners (projr (ex_tick [ex_d1, ex_d2, ex_d3] [ex_l1_moved, ex_l2]))) ''l1'')
       = Some 8
   \<and> map l_oid (released_listeners (projr (ex_tick [ex_d1, ex_d2, ex_d3] [ex_l1_moved, ex_l2])))
       = [6]
   \<and> map l_closed
        (released_listeners (projr (ex_tick [ex_d1, ex_d2, ex_d3] [ex_l1_moved, ex_l2])))
       = [True]"
  by (simp add: model_defs ex_defs)

section \<open>Fan-out and pause\<close>

text \<open>
  C3: in a hub whose dictionaries have distinct keys and whose live dispatchers all have a
  queue, one sweep over the listeners returns, and the queue of every dispatcher grows by
  exactly the records the listeners produced in the sweep, in the order they were
  produced, when the settings of the dispatcher have no \<open>pause\<close> key or a \<open>pause\<close>
  value outside \<open>i, I, in, In, IN, t, T, true, True, TRUE\<close>, and stays as it was
  otherwise.  The spellings \<open>truE\<close> and \<open>OUT\<close> are not in the list.
\<close>

theorem fan_out_respects_pause:
  assumes "distinct (map fst (listeners h))" and "distinct (map fst (dispatchers h))"
    and "covered h"
  shows "\<exists>h'. poll_listeners h = Inr h' \<and> dispatchers h' = dispatchers h \<and>
           (\<forall>n d q. map_of (dispatchers h) n = Some d \<longrightarrow> map_of (queue h) n = Some q \<longrightarrow>
              map_of (queue h') n =
                Some (q\<lparr>q_items := q_items q @
                       (if (case map_of (d_settings d) ''pause'' of
                              None \<Rightarrow> True
                            | Some p \<Rightarrow> p \<notin> {''i'', ''I'', ''in'', ''In'', ''IN'', ''t'', ''T'',
                                              ''true'', ''True'', ''TRUE''})
                        then produced h else [])\<rparr>)) \<and>
           ''truE'' \<notin> set pause_spellings \<and> ''OUT'' \<notin> set pause_spellings"
proof -
  have "\<forall>n \<in> set (map fst (listeners h)). map_of (listeners h) n \<noteq> None"
    by (simp add: map_of_eq_None_iff)
  from sweep [OF assms(1) this assms(2,3)] obtain h' where
    h': "for_each poll_listener (map fst (listeners h)) h = Inr h'"
      "dispatchers h' = dispatchers h" "map_of (queue h') = fanned h (produced h)"
    by (auto simp: produced_def)
  have "map_of (queue h') n =
          Some (q\<lparr>q_items := q_items q @
                 (if (case map_of (d_settings d) ''pause'' of
                        None \<Rightarrow> True
                      | Some p \<Rightarrow> p \<notin> {''i'', ''I'', ''in'', ''In'', ''IN'', ''t'', ''T'',
                                        ''true'', ''True'', ''TRUE''})
                  then produced h else [])\<rparr>)"
    if "map_of (dispatchers h) n = Some d" "map_of (queue h) n = Some q" for n d q
    using that h'(3) paused_iff [of d] by (simp add: fanned_def enqueue_def)
  moreover have "''truE'' \<notin> set pause_spellings" "''OUT'' \<notin> set pause_spellings"
    by (simp_all add: pause_spellings_def)
  ultimately show ?thesis using h'(1,2) by (simp add: poll_listeners_def)
qed

theorem fan_out_respects_pause_witness:
  "\<exists>h'. poll_listeners ex_hub = Inr h' \<and> covered ex_hub \<and> produced ex_hub = [7, 8]
      \<and> map_option q_items (map_of (queue h') ''d1'') = Some [4, 7, 8]
      \<and> map_option q_items (map_of (queue h') ''d2'') = Some []
      \<and> map_option q_items (map_of (queue h') ''d3'') = Some [7, 8]"
proof -
  have p: "distinct (map fst (listeners ex_hub))" "distinct (map fst (dispatchers ex_hub))"
    "covered ex_hub"
    by (simp_all add: ex_hub_def covered_def)
  have pr: "produced ex_hub = [7, 8]"
    by (simp add: produced_def produced_by_def map_filter_simps listener_read_def ex_hub_def)
  have q: "map_of (dispatchers ex_hub) ''d1'' = Some (snd (dispatchers ex_hub ! 0))"
    "map_of (dispatchers ex_hub) ''d2'' = Some (snd (dispatchers ex_hub ! 1))"
    "map_of (dispatchers ex_hub) ''d3'' = Some (snd (dispatchers ex_hub ! 2))"
    "map_of (queue ex_hub) ''d1'' = Some (snd (queue ex_hub ! 0))"
    "map_of (queue ex_hub) ''d2'' = Some (snd (queue ex_hub ! 1))"
    "map_of (queue ex_hub) ''d3'' = Some (snd (queue ex_hub ! 2))"
    by (simp_all add: ex_hub_def)
  from fan_out_respects_pause [OF p] obtain h' where
    h': "poll_listeners ex_hub = Inr h'"
      "\<forall>n d q. map_of (dispatchers ex_hub) n = Some d \<longrightarrow> map_of (queue ex_hub) n = Some q \<longrightarrow>
              map_of (queue h') n =
                Some (q\<lparr>q_items := q_items q @
                       (if (case map_of (d_settings d) ''pause'' of
                              None \<Rightarrow> True
                            | Some p \<Rightarrow> p \<notin> {''i'', ''I'', ''in'', ''In'', ''IN'', ''t'', ''T'',
                                              ''true'', ''True'', ''TRUE''})
                        then produced ex_hub else [])\<rparr>)"
    by blast
  from h'(2) [rule_format, OF q(1) q(4)] h'(2) [rule_format, OF q(2) q(5)]
    h'(2) [rule_format, OF q(3) q(6)]
  have "map_option q_items (map_of (queue h') ''d1'') = Some [4, 7, 8]"
    "map_option q_items (map_of (queue h') ''d2'') = Some []"
    "map_option q_items (map_of (queue h') ''d3'') = Some [7, 8]"
    by (simp_all add: pr) (simp_all add: ex_hub_def)
  with h'(1) p(3) pr show ?thesis by simp
qed


section \<open>A dispatcher that cannot be created\<close>

text \<open>
  C4, as the source has it.  Take a hub and a snapshot with distinct names, in which every
  live name is listed, every descriptor settles (its type, if it has one, names a class
  of the module, and the constructor returns or raises the init error of its kind), and
  \<open>hub.loglevel\<close> is a level that \<open>_set_logging_level\<close> takes without raising.  Then
  the tick returns.  For a descriptor that is not retained and whose constructor raises
  \<open>EmonHubDispatcherInitError\<close>, no handle is registered, the error is logged, and
  the queue made for it before the constructor call stays in the queue table.  The
  dispatchers live after the tick are the retained ones and those whose construction
  yields an instance; from a hub without dispatchers their number is the number of
  descriptors whose construction yields an instance.
\<close>

theorem creation_failure_is_isolated:
  assumes dist: "distinct (map fst (dispatchers h))" "distinct (map fst (listeners h))"
      "distinct (map fst (s_dispatchers s))"
    and listed: "set (map fst (dispatchers h)) \<subseteq> set (map fst (s_dispatchers s))"
      "set (map fst (listeners h)) \<subseteq> set (map fst (s_listeners s))"
    and settle: "list_all (dispatcher_settles (ehd e)) (s_dispatchers s)"
      "list_all (listener_settles (ehl e)) (s_listeners s)"
    and level: "\<not> isl (set_logging_level (logging e) (hub_loglevel s) h)"
  shows "\<exists>h'. update_settings e s h = Inr h' \<and>
           (\<forall>n dis x. (n, dis) \<in> set (s_dispatchers s) \<longrightarrow>
              dispatcher_rejection (ehd e) (n, dis) = Some x \<longrightarrow>
              \<not> retains_dispatcher s h n \<longrightarrow>
                map_of (dispatchers h') n = None \<and>
                (\<exists>k \<ge> next_oid h. map_of (queue h') n = Some \<lparr>q_oid = k, q_items = []\<rparr>) \<and>
                (ERROR, ''Failed to create '' @ quoted n @ '' dispatcher: '' @ str_error x)
                  \<in> set (hub_log h')) \<and>
           (\<forall>n. map_of (dispatchers h') n \<noteq> None \<longleftrightarrow>
              retains_dispatcher s h n \<or>
              (case map_of (s_dispatchers s) n of
                 None \<Rightarrow> False
               | Some dis \<Rightarrow> construct_dispatcher (ehd e) n dis \<noteq> None)) \<and>
           (dispatchers h = [] \<longrightarrow>
              length (dispatchers h')
                = length (filter (dispatcher_built (ehd e)) (s_dispatchers s)))"
proof -
  from update_settings_returns [OF dist(1,2) listed settle level]
  obtain h' where tick: "update_settings e s h = Inr h'" by blast
  have a: "\<forall>n dis x. (n, dis) \<in> set (s_dispatchers s) \<longrightarrow>
              dispatcher_rejection (ehd e) (n, dis) = Some x \<longrightarrow>
              \<not> retains_dispatcher s h n \<longrightarrow>
                map_of (dispatchers h') n = None \<and>
                (\<exists>k \<ge> next_oid h. map_of (queue h') n = Some \<lparr>q_oid = k, q_items = []\<rparr>) \<and>
                (ERROR, ''Failed to create '' @ quoted n @ '' dispatcher: '' @ str_error x)
                  \<in> set (hub_log h')"
    using rejected_dispatcher_after [OF tick dist(1,3)] by blast
  have b: "\<forall>n. map_of (dispatchers h') n \<noteq> None \<longleftrightarrow>
              retains_dispatcher s h n \<or>
              (case map_of (s_dispatchers s) n of
                 None \<Rightarrow> False
               | Some dis \<Rightarrow> construct_dispatcher (ehd e) n dis \<noteq> None)"
    using dispatcher_live_after [OF tick dist(1,3)] by blast
  have c: "dispatchers h = [] \<longrightarrow>
              length (dispatchers h')
                = length (filter (dispatcher_built (ehd e)) (s_dispatchers s))"
    using startup_live_count [OF tick _ dist(3)] by blast
  from tick a b c show ?thesis by blast
qed

theorem creation_failure_is_isolated_witness:
  "\<exists>h'. update_settings ex_env (ex_settings [ex_d1, ex_d2_bad, ex_d3] [ex_l1]) empty_hub = Inr h'
      \<and> dispatcher_rejection (ehd ex_env) ex_d2_bad = Some (EmonHubDispatcherInitError ''no url'')
      \<and> map_of (dispatchers h') ''d2'' = None
      \<and> (ERROR, ''Failed to create '' @ quoted ''d2'' @ '' dispatcher: no url'') \<in> set (hub_log h')
      \<and> map_of (dispatchers h') ''d1'' \<noteq> None \<and> map_of (dispatchers h') ''d3'' \<noteq> None
      \<and> length (dispatchers h') = 2"
proof -
  let ?s = "ex_settings [ex_d1, ex_d2_bad, ex_d3] [ex_l1]"
  have p: "distinct (map fst (dispatchers empty_hub))" "distinct (map fst (listeners empty_hub))"
    "distinct (map fst (s_dispatchers ?s))"
    "set (map fst (dispatchers empty_hub)) \<subseteq> set (map fst (s_dispatchers ?s))"
    "set (map fst (listeners empty_hub)) \<subseteq> set (map fst (s_listeners ?s))"
    "list_all (dispatcher_settles (ehd ex_env)) (s_dispatchers ?s)"
    "list_all (listener_settles (ehl ex_env)) (s_listeners ?s)"
    "\<not> isl (set_logging_level (logging ex_env) (hub_loglevel ?s) empty_hub)"
    by (simp_all add: empty_hub_def ex_defs dispatcher_settles_def listener_settles_def
          set_logging_level_def get_effective_level_def log_info_def)
  have r: "dispatcher_rejection (ehd ex_env) (''d2'', snd ex_d2_bad)
             = Some (EmonHubDispatcherInitError ''no url'')"
    "(''d2'', snd ex_d2_bad) \<in> set (s_dispatchers ?s)"
    "\<not> retains_dispatcher ?s empty_hub ''d2''" "dispatchers empty_hub = []"
    "length (filter (dispatcher_built (ehd ex_env)) (s_dispatchers ?s)) = 2"
    "(case map_of (s_dispatchers ?s) ''d1'' of None \<Rightarrow> False
          | Some dis \<Rightarrow> construct_dispatcher (ehd ex_env) ''d1'' dis \<noteq> None)"
    "(case map_of (s_dispatchers ?s) ''d3'' of None \<Rightarrow> False
          | Some dis \<Rightarrow> construct_dispatcher (ehd ex_env) ''d3'' dis \<noteq> None)"
    by (simp_all add: dispatcher_rejection_def retains_dispatcher_def dispatcher_built_def
          construct_dispatcher_def empty_hub_def ex_defs)
  from creation_failure_is_isolated [OF p] r show ?thesis
    by (fastforce simp: ex_d2_bad_def)
qed

text \<open>
  The claim says that no queue is leaked for the failed name.  The source makes the queue
  before it calls the constructor and has no statement that removes a queue: starting the
  hub on three descriptors, the second of which the class rejects, leaves two live
  dispatchers and three queues.
\<close>

theorem rejected_dispatcher_leaves_queue:
  "\<not> isl (update_settings ex_env (ex_settings [ex_d1, ex_d2_bad, ex_d3] []) empty_hub)
   \<and> map fst (dispatchers
         (projr (update_settings ex_env (ex_settings [ex_d1, ex_d2_bad, ex_d3] []) empty_hub)))
       = [''d1'', ''d3'']
   \<and> map fst (queue
         (projr (update_settings ex_env (ex_settings [ex_d1, ex_d2_bad, ex_d3] []) empty_hub)))
       = [''d1'', ''d2'', ''d3'']"
  by (simp add: model_defs ex_defs empty_hub_def)

text \<open>
  The other half of the claim, a type that names no class, is outside the theorem above:
  \<open>getattr\<close> raises \<open>AttributeError\<close>, which the \<open>except\<close> clause does not catch.
\<close>

lemma unknown_type_escapes:
  "update_settings ex_env
     (ex_settings [(''d9'', ex_desc (Some ''NoSuchDispatcher'') [] [])] []) empty_hub
     = Inl (AttributeError ''NoSuchDispatcher'')"
  by (simp add: model_defs ex_defs empty_hub_def)

text \<open>
  Nor does the tick return for every \<open>hub.loglevel\<close>.  The attribute \<open>debug\<close> of
  the logging module is a function: \<open>getattr\<close> returns it, it differs from the
  effective level, and \<open>setLevel\<close> raises \<open>ValueError\<close>, which nothing in
  \<open>_update_settings\<close> catches.  A name that the module does not have is logged as
  invalid and the tick goes on; \<open>WARN\<close> and \<open>NOTSET\<close>, which the docstring
  of the method does not list, are taken as levels.
\<close>

lemma unknown_level_escapes:
  "update_settings ex_env ((ex_settings [ex_d1] [])\<lparr>hub_loglevel := ''debug''\<rparr>) empty_hub
     = Inl (ValueError (''Unknown level: '' @ quoted ''debug''))"
  by (simp add: model_defs ex_defs empty_hub_def)

lemma absent_level_is_logged:
  "set_logging_level ex_logging ''Debug'' ex_hub
     = Inr (log_error ''Logging level Debug invalid'' ex_hub)"
  by (simp add: set_logging_level_def ex_logging_def ex_levels_def)

lemma undocumented_levels_are_set:
  "set_logging_level ex_logging ''NOTSET'' ex_hub
     = Inr (log_info ''Logging level set to NOTSET'' (ex_hub\<lparr>loglevel := 0\<rparr>))
   \<and> set_logging_level ex_logging ''WARN'' ex_hub
     = Inr (log_info ''Logging level set to WARN'' (ex_hub\<lparr>loglevel := 30\<rparr>))
   \<and> set_logging_level ex_logging ''DEBUG'' ex_hub = Inr ex_hub"
  by (simp add: set_logging_level_def get_effective_level_def ex_logging_def ex_levels_def
        ex_hub_def)

section \<open>A live dispatcher that the snapshot no longer lists\<close>

text \<open>
  C5: the claim is that a live component whose name the next snapshot omits is gone after
  the tick, which completes without raising.  In the source the deletion loop reads
  \<open>settings['dispatchers'][name]\<close> before it tests \<open>name in settings['dispatchers']\<close>,
  so for a live dispatcher that the snapshot does not list the tick raises: \<open>KeyError\<close>,
  unless \<open>_set_logging_level\<close> has raised before the loop is reached.
\<close>

theorem unlisted_dispatcher_raises:
  assumes "map_of (dispatchers h) n = Some d" and "map_of (s_dispatchers s) n = None"
  shows "\<exists>x. update_settings e s h = Inl x \<and>
           (\<not> isl (set_logging_level (logging e) (hub_loglevel s) h) \<longrightarrow> (\<exists>k. x = KeyError k))"
proof (cases "set_logging_level (logging e) (hub_loglevel s) h")
  case (Inl x)
  then show ?thesis by (simp add: update_settings_def)
next
  case (Inr hl)
  let ?h0 = "hl\<lparr>temp_buffer := []\<rparr>"
  from assms(1) have "n \<in> set (map fst (dispatchers ?h0))"
    using set_logging_level_frame [OF Inr]
    by (auto dest: map_of_SomeD intro: rev_image_eqI)
  then have "\<exists>x. for_each (delete_dispatcher s) (map fst (dispatchers ?h0)) ?h0 = Inl x
      \<and> (\<exists>k. x = KeyError k)"
    by (rule for_each_fails)
      (auto simp: delete_dispatcher_unlisted [OF assms(2)] dest: delete_dispatcher_raises)
  with Inr show ?thesis
    by (auto simp: update_settings_def Let_def)
qed

theorem unlisted_dispatcher_raises_witness:
  "map_of (dispatchers ex_hub) ''d1'' \<noteq> None
   \<and> map_of (s_dispatchers (ex_settings [ex_d2, ex_d3] [ex_l1, ex_l2])) ''d1'' = None
   \<and> update_settings ex_env (ex_settings [ex_d2, ex_d3] [ex_l1, ex_l2]) ex_hub
       = Inl (KeyError ''d1'')"
proof -
  have a: "map_of (dispatchers ex_hub) ''d1'' = Some (snd (hd (dispatchers ex_hub)))"
    by (simp add: ex_hub_def)
  have b: "map_of (s_dispatchers (ex_settings [ex_d2, ex_d3] [ex_l1, ex_l2])) ''d1'' = None"
    by (simp add: ex_defs)
  have c: "\<not> isl (set_logging_level (logging ex_env)
                (hub_loglevel (ex_settings [ex_d2, ex_d3] [ex_l1, ex_l2])) ex_hub)"
    by (simp add: model_defs ex_defs)
  from unlisted_dispatcher_raises [OF a b, of ex_env] c
  obtain k where k: "update_settings ex_env (ex_settings [ex_d2, ex_d3] [ex_l1, ex_l2]) ex_hub
       = Inl (KeyError k)" by blast
  moreover have "update_settings ex_env (ex_settings [ex_d2, ex_d3] [ex_l1, ex_l2]) ex_hub
       = Inl (KeyError ''d1'')"
    by (simp add: model_defs ex_defs)
  ultimately show ?thesis using a b by simp
qed

text \<open>The listener loop has the same shape and raises in the same way; and the other
  half of the claim holds: a dispatcher whose descriptor has lost its type is not live
  after a tick that completes.\<close>

lemma unlisted_listener_raises_example:
  "map_of (listeners ex_hub) ''l1'' \<noteq> None
   \<and> ex_tick [ex_d1, ex_d2, ex_d3] [ex_l2] = Inl (KeyError ''l1'')"
  by (simp add: model_defs ex_defs)

lemma untyped_dispatcher_is_deleted:
  assumes "update_settings e s h = Inr h'"
    and "distinct (map fst (dispatchers h))" and "distinct (map fst (s_dispatchers s))"
    and "map_of (s_dispatchers s) n = Some dis" and "dtype dis = None"
  shows "map_of (dispatchers h') n = None"
proof -
  have "\<not> retains_dispatcher s h n"
    using assms(4,5) by (simp add: retains_dispatcher_def split: option.splits)
  moreover have "construct_dispatcher (ehd e) n dis = None"
    using assms(5) by (simp add: construct_dispatcher_def)
  ultimately show ?thesis
    using dispatcher_live_after [OF assms(1-3), of n] assms(4) by simp
qed

section \<open>Queues and handles\<close>

text \<open>
  C6, as the source has it: in every state between two iterations of the main loop, each
  live dispatcher has an entry in the queue table, and an iteration never removes an
  entry from the queue table.  The converse direction of the claim does not hold: the
  source has no statement that deletes a queue.
\<close>

theorem live_dispatchers_have_queues:
  assumes "reachable e h"
  shows "(\<forall>n. map_of (dispatchers h) n \<noteq> None \<longrightarrow> map_of (queue h) n \<noteq> None) \<and>
         (\<forall>t h' n. iteration e t h = Inr h' \<longrightarrow> map_of (queue h) n \<noteq> None
                     \<longrightarrow> map_of (queue h') n \<noteq> None)"
proof -
  from assms have "covered h"
  proof (induction rule: reachable.induct)
    case (started s h)
    then obtain hl where hl: "set_logging_level (logging e) (hub_loglevel s) empty_hub = Inr hl"
      and up: "update_settings e s
                 (log_info ''Opening hub...''
                   (log_info ''EmonHub Pre-Release Development Version'' hl)) = Inr h"
      by (auto simp: init_hub_def split: sum.splits)
    have "covered (log_info ''Opening hub...''
         (log_info ''EmonHub Pre-Release Development Version'' hl))"
      using set_logging_level_frame [OF hl]
      by (simp add: covered_def log_info_def empty_hub_def)
    with up show ?case
      by (auto dest: update_settings_covered(2))
  next
    case (iterated h t h')
    then show ?case by (auto dest: iteration_covered(2))
  qed
  then show ?thesis
    using iteration_covered(1) by (auto simp: covered_iff keeps_queues_def)
qed

theorem live_dispatchers_have_queues_witness:
  "\<exists>h. ex_started = Inr h \<and> reachable ex_env h \<and> map_of (dispatchers h) ''d1'' \<noteq> None
      \<and> map_of (queue h) ''d1'' \<noteq> None"
proof -
  have "\<exists>h. ex_started = Inr h \<and> map_of (dispatchers h) ''d1'' \<noteq> None"
    by (simp add: ex_started_def init_hub_def empty_hub_def model_defs ex_defs)
  then obtain h where h: "ex_started = Inr h" "map_of (dispatchers h) ''d1'' \<noteq> None"
    by blast
  from h(1) have r: "reachable ex_env h"
    by (auto simp: ex_started_def intro: reachable.started)
  from live_dispatchers_have_queues [OF r] h(2)
  have "map_of (queue h) ''d1'' \<noteq> None" by blast
  with h r show ?thesis by blast
qed


text \<open>
  The claim says that a queue exists only while its handle does.  Start the hub with the
  dispatcher \<open>d1\<close>, then reload settings in which \<open>d1\<close> has lost its type: the state
  after that iteration has no dispatcher and still has the queue of \<open>d1\<close>.
\<close>

theorem deleted_dispatcher_keeps_queue:
  "\<not> isl ex_started
   \<and> \<not> isl (iteration ex_env (ex_reload (ex_settings [ex_d1_untyped] [ex_l1])) (projr ex_started))
   \<and> reachable ex_env
        (projr (iteration ex_env (ex_reload (ex_settings [ex_d1_untyped] [ex_l1])) (projr ex_started)))
   \<and> map fst (dispatchers
        (projr (iteration ex_env (ex_reload (ex_settings [ex_d1_untyped] [ex_l1])) (projr ex_started))))
       = []
   \<and> map fst (queue
        (projr (iteration ex_env (ex_reload (ex_settings [ex_d1_untyped] [ex_l1])) (projr ex_started))))
       = [''d1'']"
proof -
  let ?t = "ex_reload (ex_settings [ex_d1_untyped] [ex_l1])"
  have a: "\<exists>h. ex_started = Inr h"
    by (simp add: ex_started_def init_hub_def empty_hub_def model_defs ex_defs)
  then obtain h where h: "ex_started = Inr h" by blast
  have b: "\<exists>h'. iteration ex_env ?t (projr ex_started) = Inr h'
           \<and> map fst (dispatchers h') = [] \<and> map fst (queue h') = [''d1'']"
    by (simp add: ex_started_def ex_reload_def iteration_def init_hub_def empty_hub_def
          model_defs run_defs ex_defs)
  then obtain h' where h': "iteration ex_env ?t (projr ex_started) = Inr h'"
    "map fst (dispatchers h') = []" "map fst (queue h') = [''d1'']" by auto
  from h have rh: "reachable ex_env h"
    by (auto simp: ex_started_def intro: reachable.started)
  have "projr ex_started = h" by (simp add: h)
  with h'(1) have it: "iteration ex_env ?t h = Inr h'" by (simp only:)
  have "reachable ex_env h'" by (rule reachable.iterated [OF rh it])
  moreover have "\<not> isl ex_started" by (simp add: h)
  ultimately show ?thesis using h' by simp
qed


section \<open>What a tick does to a retained buffer\<close>

text \<open>
  C7, as the source has it: a dispatcher that is live before and after a completed tick
  has the buffer it had, when that buffer is not empty or the handle is retained.  A
  retained handle is not touched; a handle rebuilt after a change of \<open>init_settings\<close>
  gets the whole buffer of the old one.
\<close>

theorem live_dispatcher_keeps_buffer:
  assumes tick: "update_settings e s h = Inr h'"
    and dist: "distinct (map fst (dispatchers h))" "distinct (map fst (s_dispatchers s))"
    and live: "map_of (dispatchers h) n = Some d"
    and after: "map_of (dispatchers h') n = Some d'"
    and desc: "map_of (s_dispatchers s) n = Some dis"
    and keep: "d_buffer d \<noteq> []
               \<or> (dict_eq (d_init_settings d) (init_settings dis) \<and> dtype dis \<noteq> None)"
  shows "d_buffer d' = d_buffer d"
proof -
  from tick obtain h0 h1 h2 where
    h0: "dispatchers h0 = dispatchers h" "temp_buffer h0 = []" "next_oid h0 = next_oid h"
      "queue h0 = queue h" "released_dispatchers h0 = released_dispatchers h"
    and del: "for_each (delete_dispatcher s) (map fst (dispatchers h)) h0 = Inr h1"
    and cre: "for_each (create_dispatcher (ehd e)) (s_dispatchers s) h1 = Inr h2"
    and rest: "\<forall>n. d_agree n h2 h'"
    by (rule update_settings_dispatcher_stages)
  from live h0 have live0: "map_of (dispatchers h0) n = Some d" by simp
  from desc have mem: "(n, dis) \<in> set (s_dispatchers s)" by (rule map_of_SomeD)
  from rest after have after2: "map_of (dispatchers h2) n = Some d'" by (simp add: d_agree_def)
  show ?thesis
  proof (cases "dict_eq (d_init_settings d) (init_settings dis) \<and> dtype dis \<noteq> None")
    case True
    then have "d_agree n h0 h1"
      using delete_phase_retained [OF del dist(1) live_key [OF live] live0 desc] by simp
    with live0 have "map_of (dispatchers h1) n = Some d" by (simp add: d_agree_def)
    from create_phase_live(1) [OF cre dist(2) mem this] after2 show ?thesis by auto
  next
    case False
    then have doomed: "\<not> dict_eq (d_init_settings d) (init_settings dis) \<or> dtype dis = None"
      by auto
    note dropped = delete_phase_dropped [OF del dist(1) live_key [OF live] live0 desc doomed]
    show ?thesis
    proof (cases "dtype dis")
      case None
      from create_phase_untyped [OF cre dist(2) mem dropped(1) None] dropped(1) after2
      show ?thesis by (simp add: d_agree_def)
    next
      case (Some t)
      from create_phase_resolves [OF cre dist(2) mem dropped(1) Some]
      obtain cls where cls: "ehd e t = Some cls" by auto
      show ?thesis
      proof (cases "cls n (init_settings dis)")
        case (Inl x)
        from create_phase_rejects(2) [OF cre dist(2) mem dropped(1) Some cls Inl] after2
        show ?thesis by simp
      next
        case (Inr d0)
        from Some doomed False keep
        have "map_of (temp_buffer h1) n = Some (d_buffer d)"
          using dropped(3) by auto
        with create_phase_builds [OF cre dist(2) mem dropped(1) Some cls Inr] after2
        show ?thesis by auto
      qed
    qed
  qed
qed

theorem live_dispatcher_keeps_buffer_witness:
  "\<exists>h' d'. ex_tick [ex_d1, ex_d2, ex_d3] [ex_l1, ex_l2] = Inr h'
      \<and> map_of (dispatchers h') ''d1'' = Some d' \<and> d_buffer d' = [5, 6]"
proof -
  let ?s = "ex_settings [ex_d1, ex_d2, ex_d3] [ex_l1, ex_l2]"
  have "\<exists>h'. update_settings ex_env ?s ex_hub = Inr h'
          \<and> map_of (dispatchers h') ''d1'' = Some (snd (hd (dispatchers h')))"
    by (simp add: model_defs ex_defs)
  then obtain h' where tick: "update_settings ex_env ?s ex_hub = Inr h'"
    and after: "map_of (dispatchers h') ''d1'' = Some (snd (hd (dispatchers h')))"
    by blast
  have p: "distinct (map fst (dispatchers ex_hub))" "distinct (map fst (s_dispatchers ?s))"
    "map_of (dispatchers ex_hub) ''d1'' = Some (snd (hd (dispatchers ex_hub)))"
    by (simp_all add: ex_defs)
  have q: "map_of (s_dispatchers ?s) ''d1'' = Some (snd ex_d1)"
    "d_buffer (snd (hd (dispatchers ex_hub))) \<noteq> []
       \<or> (dict_eq (d_init_settings (snd (hd (dispatchers ex_hub)))) (init_settings (snd ex_d1))
            \<and> dtype (snd ex_d1) \<noteq> None)"
    by (simp_all add: ex_defs)
  from live_dispatcher_keeps_buffer [OF tick p after q]
  have "d_buffer (snd (hd (dispatchers h'))) = [5, 6]" by (simp add: ex_defs)
  with tick after show ?thesis by (auto simp: ex_tick_def)
qed

text \<open>
  The claim also covers a replacement whose creation fails.  There the code has no handle
  to give the buffer to: after the tick no dispatcher \<open>d1\<close> is live and no live handle
  holds the two buffered records.
\<close>

theorem failed_rebuild_drops_buffer:
  "d_buffer (the (map_of (dispatchers ex_hub) ''d1'')) = [5, 6]
   \<and> \<not> isl (ex_tick [ex_d1_bad, ex_d2, ex_d3] [ex_l1, ex_l2])
   \<and> map fst (dispatchers (projr (ex_tick [ex_d1_bad, ex_d2, ex_d3] [ex_l1, ex_l2])))
         = [''d2'', ''d3'']
   \<and> map (d_buffer \<circ> snd) (dispatchers (projr (ex_tick [ex_d1_bad, ex_d2, ex_d3] [ex_l1, ex_l2])))
         = [[], []]"
  by (simp add: model_defs ex_defs)

section \<open>Shutdown\<close>

text \<open>
  C8: let SIGINT arrive during an iteration of the main loop, at any point of its sweep
  over the listeners, after a run of iterations without a signal, none of which raises.
  Then the loop ends with the state at the end of that iteration, whatever inputs would
  follow; that state is the one the full sweep of the iteration leaves, with the exit flag
  set; and \<open>close\<close> then closes every live listener and sets the stop flag of every
  live dispatcher, without polling a listener again.
\<close>

theorem exit_after_current_iteration:
  assumes "\<not> exit_flag h"
    and "list_all (\<lambda>t. sigint t = None) pre"
    and "sigint t = Some k"
    and "for_each (iteration e) pre h = Inr hp"
    and "iteration e t hp = Inr hk"
  shows "run e (pre @ t # post) h = Some (Inr hk) \<and> exit_flag hk \<and>
         (\<exists>h1 h2.
            (case new_settings t of None \<Rightarrow> Inr hp | Some s \<Rightarrow> update_settings e s hp) = Inr h1 \<and>
            poll_listeners h1 = Inr h2 \<and> hk = sigint_handler h2) \<and>
         run_and_close e (pre @ t # post) h = Some (Inr (close hk)) \<and>
         list_all (l_closed \<circ> snd) (listeners (close hk)) \<and>
         list_all (d_stop \<circ> snd) (dispatchers (close hk)) \<and>
         map fst (listeners (close hk)) = map fst (listeners hk) \<and>
         map fst (dispatchers (close hk)) = map fst (dispatchers hk) \<and>
         map (l_polls \<circ> snd) (listeners (close hk)) = map (l_polls \<circ> snd) (listeners hk)"
proof -
  from run_quiet_prefix [OF assms(1,2,4), of "t # post"]
  have p: "run e (pre @ t # post) h = run e (t # post) hp" "\<not> exit_flag hp" by simp_all
  from iteration_exit_flag [OF assms(5)] assms(3) have k: "exit_flag hk" by simp
  have "run e (t # post) hp = Some (Inr hk)"
    using p(2) assms(5) k by (cases post) simp_all
  with p(1) have r: "run e (pre @ t # post) h = Some (Inr hk)" by simp
  then have rc: "run_and_close e (pre @ t # post) h = Some (Inr (close hk))"
    by (simp add: run_and_close_def)
  from assms(5) obtain h1 h2 where
    "(case new_settings t of None \<Rightarrow> Inr hp | Some s \<Rightarrow> update_settings e s hp) = Inr h1"
    and "poll_listeners h1 = Inr h2"
    and "hk = (if sigint t = None then h2 else sigint_handler h2)"
    by (rule iteration_stages)
  with assms(3)
  have s: "\<exists>h1 h2.
            (case new_settings t of None \<Rightarrow> Inr hp | Some s \<Rightarrow> update_settings e s hp) = Inr h1 \<and>
            poll_listeners h1 = Inr h2 \<and> hk = sigint_handler h2"
    by (intro exI [of _ h1] exI [of _ h2]) simp
  from r k s rc close_effect [of hk] show ?thesis by simp
qed

theorem exit_after_current_iteration_witness:
  "\<exists>hk. run ex_env ([ex_quiet] @ ex_sigint # [ex_quiet, ex_quiet]) ex_hub = Some (Inr hk)
      \<and> sigint ex_sigint = Some 1
      \<and> exit_flag hk \<and> map (l_polls \<circ> snd) (listeners hk) = [2, 2]
      \<and> run_and_close ex_env ([ex_quiet] @ ex_sigint # [ex_quiet, ex_quiet]) ex_hub
          = Some (Inr (close hk))
      \<and> map (l_closed \<circ> snd) (listeners (close hk)) = [True, True]
      \<and> map (d_stop \<circ> snd) (dispatchers (close hk)) = [True, True, True]
      \<and> map (l_polls \<circ> snd) (listeners (close hk)) = [2, 2]"
proof -
  have "\<exists>hp hk. for_each (iteration ex_env) [ex_quiet] ex_hub = Inr hp
           \<and> iteration ex_env ex_sigint hp = Inr hk
           \<and> map (l_polls \<circ> snd) (listeners hk) = [2, 2]
           \<and> map fst (listeners hk) = [''l1'', ''l2'']
           \<and> map fst (dispatchers hk) = [''d1'', ''d2'', ''d3'']"
    by (simp add: iteration_def sweep_with_signal_def run_defs sigint_handler_def
          log_debug_def ex_quiet_def ex_sigint_def ex_hub_def update_conv')
  then obtain hp hk where hp: "for_each (iteration ex_env) [ex_quiet] ex_hub = Inr hp"
    and hk: "iteration ex_env ex_sigint hp = Inr hk"
    and polls: "map (l_polls \<circ> snd) (listeners hk) = [2, 2]"
    and names: "map fst (listeners hk) = [''l1'', ''l2'']"
      "map fst (dispatchers hk) = [''d1'', ''d2'', ''d3'']"
    by auto
  have p: "\<not> exit_flag ex_hub" "list_all (\<lambda>t. sigint t = None) [ex_quiet]"
    "sigint ex_sigint = Some 1"
    by (simp_all add: ex_hub_def ex_quiet_def ex_sigint_def)
  note t = exit_after_current_iteration [OF p hp hk, of "[ex_quiet, ex_quiet]"]
  from t names have "length (listeners (close hk)) = 2" "length (dispatchers (close hk)) = 3"
    by (metis length_map length_Cons list.size(3) numeral_2_eq_2 numeral_3_eq_3)+
  with t have "map (l_closed \<circ> snd) (listeners (close hk)) = [True, True]"
    "map (d_stop \<circ> snd) (dispatchers (close hk)) = [True, True, True]"
    by (auto simp: list_all_iff length_Suc_conv numeral_2_eq_2 numeral_3_eq_3)
  with t polls p(3) show ?thesis by simp
qed


section \<open>What the queues share\<close>

text \<open>
  C9: the claim is that each dispatcher that is not paused gets its own copy of a record.
  The source comment says so too (\<open>Place a copy of the values in a queue for each
  dispatcher\<close>), but the statement is \<open>self._queue[name].put(values)\<close>: every queue gets
  the same reference.  On the example hub the dispatchers \<open>d1\<close> and \<open>d3\<close> both
  receive the references 7 and 8, so that in any store a write through the last entry of
  the queue of \<open>d1\<close> changes what \<open>d3\<close> reads from its own queue.
\<close>

theorem fan_out_puts_the_same_reference:
  "\<not> isl (poll_listeners ex_hub)
   \<and> \<not> paused (the (map_of (dispatchers ex_hub) ''d1''))
   \<and> \<not> paused (the (map_of (dispatchers ex_hub) ''d3''))
   \<and> map_option q_items (map_of (queue (projr (poll_listeners ex_hub))) ''d1'') = Some [4, 7, 8]
   \<and> map_option q_items (map_of (queue (projr (poll_listeners ex_hub))) ''d3'') = Some [7, 8]
   \<and> (\<forall>\<sigma> c. map (\<sigma>(last (q_items (the (map_of (queue (projr (poll_listeners ex_hub))) ''d1''))) := c))
                 (q_items (the (map_of (queue (projr (poll_listeners ex_hub))) ''d3'')))
              = [\<sigma> 7, c])"
  by (simp add: run_defs ex_hub_def update_conv')


section \<open>The node table\<close>

text \<open>
  C10: a tick whose snapshot has no \<open>nodes\<close> section leaves the shared node table
  \<open>ehc.nodelist\<close> as it was; a tick whose snapshot has one overwrites it with that
  section.
\<close>

theorem nodelist_changes_only_with_nodes_section:
  assumes "update_settings e s h = Inr h'"
  shows "nodelist h' = (case nodes s of None \<Rightarrow> nodelist h | Some n \<Rightarrow> n)"
proof -
  from assms obtain h0 h1 h2 h3 h4 where
    st0: "tick_start h h0"
    and st: "for_each (delete_dispatcher s) (map fst (dispatchers h)) h0 = Inr h1"
    "for_each (create_dispatcher (ehd e)) (s_dispatchers s) h1 = Inr h2"
    "for_each (delete_listener s) (map fst (listeners h2)) h2 = Inr h3"
    "for_each (create_listener (ehl e)) (s_listeners s) h3 = Inr h4"
    "h' = publish_nodes s h4"
    by (rule update_settings_stages)
  have "nodelist h1 = nodelist h"
    by (rule for_each_inv [OF st(1)]) (auto simp: tick_startD [OF st0] dest: delete_dispatcher_frame)
  moreover have "nodelist h2 = nodelist h1"
    by (rule for_each_inv [OF st(2)]) (auto dest: create_dispatcher_frame)
  moreover have "nodelist h3 = nodelist h2"
    by (rule for_each_inv [OF st(3)]) (auto dest: delete_listener_frame)
  moreover have "nodelist h4 = nodelist h3"
    by (rule for_each_inv [OF st(4)]) (auto dest: create_listener_frame)
  ultimately show ?thesis using st(5)
    by (simp add: publish_nodes_def split: option.splits)
qed

theorem nodelist_changes_only_with_nodes_section_witness:
  "\<exists>h'. update_settings ex_env (ex_settings [ex_d1, ex_d2, ex_d3] [ex_l1, ex_l2]) ex_hub = Inr h'
      \<and> nodes (ex_settings [ex_d1, ex_d2, ex_d3] [ex_l1, ex_l2]) = None
      \<and> nodelist h' = [(''10'', ''emontx'')]"
proof -
  have "\<exists>h'. update_settings ex_env (ex_settings [ex_d1, ex_d2, ex_d3] [ex_l1, ex_l2]) ex_hub = Inr h'"
    by (simp add: model_defs ex_defs)
  then obtain h' where h: "update_settings ex_env (ex_settings [ex_d1, ex_d2, ex_d3] [ex_l1, ex_l2]) ex_hub = Inr h'"
    by blast
  have "nodelist h' = [(''10'', ''emontx'')]"
    using nodelist_changes_only_with_nodes_section [OF h]
    by (simp add: ex_settings_def ex_hub_def)
  with h show ?thesis by (auto simp: ex_settings_def)
qed

end
